theory Spec2Isabelle
  imports Main
begin

section \<open>Strings\<close>

text \<open>
  A JavaScript string is a sequence of UTF-16 code units and \<open>length\<close> counts them. A
  \<^typ>\<open>string\<close> here is the list of those code units, one \<^typ>\<open>char\<close> each; only code units
  below 256 are represented.
\<close>

definition nl :: char where
  "nl = CHR 0x0A"

text \<open>\<^verbatim>\<open>s.split("\n")\<close>: the empty string splits into one empty line.\<close>

fun split_nl :: "string \<Rightarrow> string list" where
  "split_nl [] = [[]]"
| "split_nl (c # cs) =
     (if c = nl then [] # split_nl cs
      else (case split_nl cs of
              [] \<Rightarrow> [[c]]
            | l # ls \<Rightarrow> (c # l) # ls))"

text \<open>\<^verbatim>\<open>xs.join("\n")\<close>\<close>

fun join_nl :: "string list \<Rightarrow> string" where
  "join_nl [] = []"
| "join_nl [x] = x"
| "join_nl (x # y # ys) = x @ nl # join_nl (y # ys)"

text \<open>
  \<^verbatim>\<open>String.prototype.trim\<close> strips white space and line terminators from both ends; below
  256 these are TAB, LF, VT, FF, CR, SP and NBSP.
\<close>

definition isWhiteSpace :: "char \<Rightarrow> bool" where
  "isWhiteSpace c \<longleftrightarrow>
     c = CHR 0x09 \<or> c = CHR 0x0A \<or> c = CHR 0x0B \<or> c = CHR 0x0C \<or> c = CHR 0x0D
     \<or> c = CHR 0x20 \<or> c = CHR 0xA0"

definition trim :: "string \<Rightarrow> string" where
  "trim s = rev (dropWhile isWhiteSpace (rev (dropWhile isWhiteSpace s)))"

text \<open>
  \<^verbatim>\<open>String.prototype.toLowerCase\<close>, code unit by code unit: A-Z and the upper-case letters
  of Latin-1 (0xC0-0xDE without the multiplication sign 0xD7) move up by 0x20.
\<close>

definition lowerChar :: "char \<Rightarrow> char" where
  "lowerChar c =
     (let n = (of_char c :: nat)
      in if (65 \<le> n \<and> n \<le> 90) \<or> (192 \<le> n \<and> n \<le> 222 \<and> n \<noteq> 215)
         then char_of (n + 32) else c)"

definition toLowerCase :: "string \<Rightarrow> string" where
  "toLowerCase s = map lowerChar s"

text \<open>Decimal digits of a number, as a template literal prints it.\<close>

definition digitChar :: "nat \<Rightarrow> char" where
  "digitChar d = char_of (48 + d)"

function showNat :: "nat \<Rightarrow> string" where
  "showNat n = (if n < 10 then [digitChar n] else showNat (n div 10) @ [digitChar (n mod 10)])"
  by pat_completeness auto
termination
  by (relation "measure (\<lambda>n. n)") auto

declare showNat.simps [simp del]

section \<open>JSON values and the platform\<close>

text \<open>
  A parsed JSON value. An object is the list of its members in order; a member is looked
  up by key. Numbers are integers (indices, counts, timestamps in milliseconds).
\<close>

datatype json =
    JNull
  | JBool bool
  | JNum int
  | JStr string
  | JArr "json list"
  | JObj "(string \<times> json) list"

text \<open>\<^verbatim>\<open>value.key\<close> on a value that is not null: \<open>None\<close> is \<^verbatim>\<open>undefined\<close>.\<close>

definition getProp :: "json \<Rightarrow> string \<Rightarrow> json option" where
  "getProp j k = (case j of JObj kvs \<Rightarrow> map_of kvs k | _ \<Rightarrow> None)"

text \<open>
  What the code takes from Node and the JavaScript runtime, as parameters:
  \<^verbatim>\<open>JSON.parse\<close> (\<open>None\<close> when it throws a SyntaxError), \<^verbatim>\<open>JSON.stringify\<close>,
  the hex digest of \<^verbatim>\<open>crypto.createHash("sha256")\<close>, \<^verbatim>\<open>path.resolve\<close>,
  \<^verbatim>\<open>path.join\<close> and \<^verbatim>\<open>os.homedir()\<close>.
\<close>

record platform =
  JSON_parse :: "string \<Rightarrow> json option"
  JSON_stringify :: "json \<Rightarrow> string"
  sha256_hex :: "string \<Rightarrow> string"
  path_resolve :: "string \<Rightarrow> string"
  path_join :: "string \<Rightarrow> string \<Rightarrow> string"
  homedir :: string

section \<open>Chunker (ingest.ts)\<close>

record FileContent =
  filePath :: string
  content :: string
  modifiedTime :: int
  isModified :: bool

record FileChunk =
  chunk_filePath :: string
  chunk_content :: string
  chunkIndex :: nat
  totalChunks :: nat

definition maxChunkSize :: nat where
  "maxChunkSize = 8000"

text \<open>
  The loop of \<^verbatim>\<open>chunkContent\<close> over the lines: its variables are the chunks closed so
  far, \<^verbatim>\<open>currentChunk\<close> and \<^verbatim>\<open>chunkIndex\<close>. An empty \<^verbatim>\<open>currentChunk\<close> is falsy.
\<close>

type_synonym chunkState = "FileChunk list \<times> string \<times> nat"

definition chunkStep :: "nat \<Rightarrow> string \<Rightarrow> chunkState \<Rightarrow> string \<Rightarrow> chunkState" where
  "chunkStep maxSize fp st line =
     (case st of (chunks, currentChunk, idx) \<Rightarrow>
       (let newChunk = (if currentChunk \<noteq> [] then currentChunk @ nl # line else line)
        in if length newChunk > maxSize \<and> currentChunk \<noteq> []
           then (chunks @ [\<lparr>chunk_filePath = fp, chunk_content = currentChunk,
                             chunkIndex = idx, totalChunks = 0\<rparr>],
                 line, idx + 1)
           else (chunks, newChunk, idx)))"

primrec chunkLoop :: "nat \<Rightarrow> string \<Rightarrow> string list \<Rightarrow> chunkState \<Rightarrow> chunkState" where
  "chunkLoop maxSize fp [] st = st"
| "chunkLoop maxSize fp (line # rest) st = chunkLoop maxSize fp rest (chunkStep maxSize fp st line)"

text \<open>After the loop: "add the last chunk if it has content".\<close>

definition pushLast :: "string \<Rightarrow> chunkState \<Rightarrow> FileChunk list" where
  "pushLast fp st =
     (case st of (chunks, currentChunk, idx) \<Rightarrow>
        if currentChunk \<noteq> []
        then chunks @ [\<lparr>chunk_filePath = fp, chunk_content = currentChunk,
                        chunkIndex = idx, totalChunks = 0\<rparr>]
        else chunks)"

text \<open>\<^verbatim>\<open>chunkContent\<close> with the private field \<^verbatim>\<open>maxChunkSize\<close> as an argument.\<close>

definition chunkContentWith :: "nat \<Rightarrow> FileContent \<Rightarrow> FileChunk list" where
  "chunkContentWith maxSize fileContent =
     (if length (content fileContent) \<le> maxSize
      then [\<lparr>chunk_filePath = filePath fileContent, chunk_content = content fileContent,
             chunkIndex = 0, totalChunks = 1\<rparr>]
      else
        (let chunks = pushLast (filePath fileContent)
                        (chunkLoop maxSize (filePath fileContent)
                           (split_nl (content fileContent)) ([], [], 0))
         in map (\<lambda>chunk. chunk\<lparr>totalChunks := length chunks\<rparr>) chunks))"

definition chunkContent :: "FileContent \<Rightarrow> FileChunk list" where
  "chunkContent = chunkContentWith maxChunkSize"

section \<open>State store (state.ts)\<close>

record ExtractedTask =
  title :: string
  due :: "string option"
  tags :: "string list option"

record TaskWithMeta = ExtractedTask +
  hash :: string
  task_filePath :: string
  lineIndex :: nat
  extractedAt :: string

text \<open>
  \<^verbatim>\<open>AppState\<close>. The \<^verbatim>\<open>Set<string>\<close> is the list of its elements in insertion order,
  without repetition; the \<^verbatim>\<open>Record<string, number>\<close> is the list of its entries in
  insertion order, each key once. Modification times are milliseconds.
\<close>

record AppState =
  lastRun :: "string option"
  processedTasks :: "string list"
  lastModifiedTimes :: "(string \<times> int) list"

text \<open>\<^verbatim>\<open>set.add(x)\<close> and \<^verbatim>\<open>new Set(array)\<close>\<close>

definition setAdd :: "'a \<Rightarrow> 'a list \<Rightarrow> 'a list" where
  "setAdd x xs = (if x \<in> set xs then xs else xs @ [x])"

definition setFromArray :: "'a list \<Rightarrow> 'a list" where
  "setFromArray xs = foldl (\<lambda>acc x. setAdd x acc) [] xs"

text \<open>\<^verbatim>\<open>obj[k] = v\<close>: an existing key keeps its place.\<close>

primrec objSet :: "string \<Rightarrow> 'v \<Rightarrow> (string \<times> 'v) list \<Rightarrow> (string \<times> 'v) list" where
  "objSet k v [] = [(k, v)]"
| "objSet k v (kv # kvs) = (if fst kv = k then (k, v) # kvs else kv # objSet k v kvs)"

text \<open>
  \<^verbatim>\<open>array.slice(start)\<close>: a negative start counts from the end. \<^verbatim>\<open>slice(-0)\<close> is
  \<^verbatim>\<open>slice(0)\<close>, as \<open>- 0 = 0\<close> on the integers.
\<close>

definition slice_from :: "int \<Rightarrow> 'a list \<Rightarrow> 'a list" where
  "slice_from start xs =
     (let len = int (length xs);
          k = (if start < 0 then max (len + start) 0 else min start len)
      in drop (nat k) xs)"

text \<open>
  The state file on disk, the file system and the clock, as the code sees them through
  \<^verbatim>\<open>fs\<close> and \<^verbatim>\<open>Date\<close>: \<open>fsStat\<close> is \<^verbatim>\<open>statSync\<close> (\<open>None\<close> when it throws)
  and gives \<^verbatim>\<open>isDirectory()\<close> and \<^verbatim>\<open>mtimeMs\<close>; \<open>fsReadFile\<close> and \<open>fsReaddir\<close> are
  \<^verbatim>\<open>readFileSync\<close> and \<^verbatim>\<open>readdirSync\<close>; \<open>diskWritable\<close> says whether writing the state
  file succeeds. The clock is read as one instant per run.
\<close>

datatype ledgerFile = Missing | Unreadable | Contents string

record env = platform +
  fsStat :: "string \<Rightarrow> (bool \<times> int) option"
  fsReadFile :: "string \<Rightarrow> string option"
  fsReaddir :: "string \<Rightarrow> string list option"
  diskWritable :: bool
  nowMs :: int
  nowISO :: string

text \<open>
  What a run does to the outside and to the state, in order: a ghost record of the calls
  the properties below speak about.
\<close>

datatype event =
    WatermarkAdvanced string int
  | LedgerWritten string
  | ExtractionCalled "FileChunk list"
  | SyncCalled "TaskWithMeta list"
  | MarkedProcessed string

text \<open>The state manager: its in-memory state, the state file and the record of events.\<close>

record World =
  state :: AppState
  ledger :: ledgerFile
  events :: "event list"

definition defaultState :: AppState where
  "defaultState = \<lparr>lastRun = None, processedTasks = [], lastModifiedTimes = []\<rparr>"

text \<open>
  \<^verbatim>\<open>loadState\<close>. Everything inside the \<^verbatim>\<open>try\<close> that throws ends in the default state:
  a file that cannot be read, \<^verbatim>\<open>JSON.parse\<close> failing, and the property access on a parsed
  \<^verbatim>\<open>null\<close>. A member whose value is not of the declared type (\<^verbatim>\<open>string | null\<close>,
  \<^verbatim>\<open>string[]\<close>, \<^verbatim>\<open>Record<string, number>\<close>) is outside \<^verbatim>\<open>AppState\<close> and is read here
  as absent.
\<close>

definition decodeLastRun :: "json \<Rightarrow> string option" where
  "decodeLastRun parsed =
     (case getProp parsed ''lastRun'' of
        Some (JStr s) \<Rightarrow> (if s \<noteq> [] then Some s else None)
      | _ \<Rightarrow> None)"

fun jsonStrings :: "json list \<Rightarrow> string list" where
  "jsonStrings [] = []"
| "jsonStrings (JStr s # js) = s # jsonStrings js"
| "jsonStrings (j # js) = jsonStrings js"

definition decodeProcessedTasks :: "json \<Rightarrow> string list" where
  "decodeProcessedTasks parsed =
     (case getProp parsed ''processedTasks'' of
        Some (JArr xs) \<Rightarrow> setFromArray (jsonStrings xs)
      | _ \<Rightarrow> [])"

fun jsonNumbers :: "(string \<times> json) list \<Rightarrow> (string \<times> int) list" where
  "jsonNumbers [] = []"
| "jsonNumbers ((k, JNum n) # kvs) = (k, n) # jsonNumbers kvs"
| "jsonNumbers (kv # kvs) = jsonNumbers kvs"

definition decodeLastModifiedTimes :: "json \<Rightarrow> (string \<times> int) list" where
  "decodeLastModifiedTimes parsed =
     (case getProp parsed ''lastModifiedTimes'' of
        Some (JObj kvs) \<Rightarrow> jsonNumbers kvs
      | _ \<Rightarrow> [])"

definition loadState :: "(string \<Rightarrow> json option) \<Rightarrow> ledgerFile \<Rightarrow> AppState" where
  "loadState parse file =
     (case file of
        Missing \<Rightarrow> defaultState
      | Unreadable \<Rightarrow> defaultState
      | Contents text \<Rightarrow>
          (case parse text of
             None \<Rightarrow> defaultState
           | Some JNull \<Rightarrow> defaultState
           | Some parsed \<Rightarrow>
               \<lparr>lastRun = decodeLastRun parsed,
                processedTasks = decodeProcessedTasks parsed,
                lastModifiedTimes = decodeLastModifiedTimes parsed\<rparr>))"

text \<open>The constructor: \<^verbatim>\<open>this.state = this.loadState()\<close>.\<close>

definition newStateManager :: "(string \<Rightarrow> json option) \<Rightarrow> ledgerFile \<Rightarrow> World" where
  "newStateManager parse file = \<lparr>state = loadState parse file, ledger = file, events = []\<rparr>"

definition serialisableState :: "AppState \<Rightarrow> json" where
  "serialisableState st =
     JObj [(''lastRun'', (case lastRun st of None \<Rightarrow> JNull | Some s \<Rightarrow> JStr s)),
           (''processedTasks'', JArr (map JStr (processedTasks st))),
           (''lastModifiedTimes'', JObj (map (\<lambda>(k, v). (k, JNum v)) (lastModifiedTimes st)))]"

text \<open>
  \<^verbatim>\<open>saveState\<close> rewrites the whole file; a failed write is rethrown as an \<^verbatim>\<open>Error\<close>
  (\<open>Inl\<close>, with the start of its message) and leaves the file as it was. A state-changing
  operation returns what it threw or returned together with the manager afterwards.
\<close>

definition saveState :: "'a env_scheme \<Rightarrow> World \<Rightarrow> (string + unit) \<times> World" where
  "saveState e w =
     (if diskWritable e
      then (let text = JSON_stringify e (serialisableState (state w))
            in (Inr (), w\<lparr>ledger := Contents text, events := events w @ [LedgerWritten text]\<rparr>))
      else (Inl ''Failed to save state'', w))"

definition generateTaskHash ::
    "'a platform_scheme \<Rightarrow> 'b ExtractedTask_scheme \<Rightarrow> string \<Rightarrow> nat \<Rightarrow> string" where
  "generateTaskHash p task fp idx =
     (let hashInput = JSON_stringify p
            (JObj [(''title'', JStr (toLowerCase (trim (title task)))),
                   (''filePath'', JStr (path_resolve p fp)),
                   (''lineIndex'', JNum (int idx))])
      in take 16 (sha256_hex p hashInput))"

definition isTaskProcessed :: "AppState \<Rightarrow> string \<Rightarrow> bool" where
  "isTaskProcessed st h \<longleftrightarrow> h \<in> set (processedTasks st)"

definition markTaskProcessed :: "string \<Rightarrow> World \<Rightarrow> World" where
  "markTaskProcessed h w =
     w\<lparr>state := (state w)\<lparr>processedTasks := setAdd h (processedTasks (state w))\<rparr>,
       events := events w @ [MarkedProcessed h]\<rparr>"

text \<open>\<^verbatim>\<open>isFileModified\<close>: a stored time of 0 is falsy, like a missing one.\<close>

definition isFileModified :: "'a env_scheme \<Rightarrow> AppState \<Rightarrow> string \<Rightarrow> bool" where
  "isFileModified e st fp =
     (case fsStat e fp of
        None \<Rightarrow> True
      | Some (isDir, currentMtime) \<Rightarrow>
          (case map_of (lastModifiedTimes st) fp of
             None \<Rightarrow> True
           | Some lastMtime \<Rightarrow> if lastMtime = 0 then True else currentMtime > lastMtime))"

definition updateFileModifiedTime :: "'a env_scheme \<Rightarrow> string \<Rightarrow> World \<Rightarrow> World" where
  "updateFileModifiedTime e fp w =
     (case fsStat e fp of
        None \<Rightarrow> w
      | Some (isDir, mtimeMs) \<Rightarrow>
          w\<lparr>state := (state w)\<lparr>lastModifiedTimes :=
                 objSet fp mtimeMs (lastModifiedTimes (state w))\<rparr>,
            events := events w @ [WatermarkAdvanced fp mtimeMs]\<rparr>)"

definition getLastRun :: "World \<Rightarrow> string option" where
  "getLastRun w = lastRun (state w)"

definition updateLastRun :: "'a env_scheme \<Rightarrow> World \<Rightarrow> (string + unit) \<times> World" where
  "updateLastRun e w = saveState e (w\<lparr>state := (state w)\<lparr>lastRun := Some (nowISO e)\<rparr>\<rparr>)"

definition getProcessedTaskCount :: "World \<Rightarrow> nat" where
  "getProcessedTaskCount w = length (processedTasks (state w))"

text \<open>
  \<^verbatim>\<open>cleanup(maxEntries)\<close>. \<^verbatim>\<open>Math.floor(maxEntries * 0.8)\<close> is \<open>maxEntries * 4 div 5\<close>:
  the double nearest to 0.8 lies above it by less than \<open>2^-54\<close>, so for a count the
  product is never rounded across an integer.
\<close>

definition keepCount :: "nat \<Rightarrow> nat" where
  "keepCount maxEntries = maxEntries * 4 div 5"

definition thirtyDaysMs :: int where
  "thirtyDaysMs = 30 * 24 * 60 * 60 * 1000"

definition cleanup :: "'a env_scheme \<Rightarrow> nat \<Rightarrow> World \<Rightarrow> (string + unit) \<times> World" where
  "cleanup e maxEntries w =
     (let st = state w;
          trimmed = length (processedTasks st) > maxEntries;
          keepTasks = (if trimmed
                       then setFromArray (slice_from (- int (keepCount maxEntries)) (processedTasks st))
                       else processedTasks st);
          thirtyDaysAgo = nowMs e - thirtyDaysMs;
          filesToRemove = map fst (filter (\<lambda>(fp, mtime). mtime < thirtyDaysAgo) (lastModifiedTimes st));
          times = filter (\<lambda>(fp, mtime). fp \<notin> set filesToRemove) (lastModifiedTimes st);
          w' = w\<lparr>state := st\<lparr>processedTasks := keepTasks, lastModifiedTimes := times\<rparr>\<rparr>
      in if trimmed \<or> filesToRemove \<noteq> [] then saveState e w' else (Inr (), w'))"

definition defaultMaxEntries :: nat where
  "defaultMaxEntries = 10000"

section \<open>Ingestion (ingest.ts)\<close>

definition startsWith :: "string \<Rightarrow> string \<Rightarrow> bool" where
  "startsWith pre s \<longleftrightarrow> take (length pre) s = pre"

definition endsWith :: "string \<Rightarrow> string \<Rightarrow> bool" where
  "endsWith suf s \<longleftrightarrow> length suf \<le> length s \<and> drop (length s - length suf) s = suf"

definition expandPath :: "'a env_scheme \<Rightarrow> string \<Rightarrow> string" where
  "expandPath e fp = (if startsWith ''~/'' fp then path_join e (homedir e) (drop 2 fp) else fp)"

text \<open>\<^verbatim>\<open>scanDirectory\<close>: every failure is rethrown (\<open>Inl\<close> the message).\<close>

definition scanDirectory :: "'a env_scheme \<Rightarrow> string \<Rightarrow> string + string list" where
  "scanDirectory e dirPath =
     (let expandedPath = expandPath e dirPath
      in case fsStat e expandedPath of
           None \<Rightarrow> Inl (''Directory does not exist: '' @ expandedPath)
         | Some (isDir, mtimeMs) \<Rightarrow>
             if \<not> isDir then Inl (''Path is not a directory: '' @ expandedPath)
             else (case fsReaddir e expandedPath of
                     None \<Rightarrow> Inl ''readdir failed''
                   | Some files \<Rightarrow>
                       Inr (map (path_join e expandedPath) (filter (endsWith ''.md'') files))))"

text \<open>
  \<^verbatim>\<open>readFiles\<close>: a file whose \<^verbatim>\<open>statSync\<close> or \<^verbatim>\<open>readFileSync\<close> throws is skipped, and so
  is one that \<^verbatim>\<open>isFileModified\<close> reports unchanged.
\<close>

definition readFile1 :: "'a env_scheme \<Rightarrow> AppState \<Rightarrow> string \<Rightarrow> FileContent list" where
  "readFile1 e st fp =
     (case fsStat e fp of
        None \<Rightarrow> []
      | Some (isDir, mtimeMs) \<Rightarrow>
          if \<not> isFileModified e st fp then []
          else (case fsReadFile e fp of
                  None \<Rightarrow> []
                | Some text \<Rightarrow>
                    [\<lparr>filePath = fp, content = text, modifiedTime = mtimeMs, isModified = True\<rparr>]))"

definition readFiles :: "'a env_scheme \<Rightarrow> AppState \<Rightarrow> string list \<Rightarrow> FileContent list" where
  "readFiles e st filePaths = concat (map (readFile1 e st) filePaths)"

text \<open>
  The loop of \<^verbatim>\<open>ingestFiles\<close>: chunk the file, then
  \<^verbatim>\<open>stateManager.updateFileModifiedTime(fileContent.filePath)\<close>.
\<close>

primrec ingestLoop ::
    "'a env_scheme \<Rightarrow> FileContent list \<Rightarrow> FileChunk list \<times> World \<Rightarrow> FileChunk list \<times> World" where
  "ingestLoop e [] acc = acc"
| "ingestLoop e (fileContent # rest) acc =
     ingestLoop e rest
       (fst acc @ chunkContent fileContent,
        updateFileModifiedTime e (filePath fileContent) (snd acc))"

definition ingestFiles :: "'a env_scheme \<Rightarrow> string \<Rightarrow> World \<Rightarrow> (string + FileChunk list) \<times> World" where
  "ingestFiles e dirPath w =
     (case scanDirectory e dirPath of
        Inl err \<Rightarrow> (Inl err, w)
      | Inr filePaths \<Rightarrow>
          if filePaths = [] then (Inr [], w)
          else (let fileContents = readFiles e (state w) filePaths
                in if fileContents = [] then (Inr [], w)
                   else (case ingestLoop e fileContents ([], w) of
                           (allChunks, w') \<Rightarrow> (Inr allChunks, w'))))"

section \<open>Sync client (notion.ts)\<close>

record NotionSyncResult =
  success :: bool
  pageId :: "json option"
  pageUrl :: "json option"
  error :: "string option"

text \<open>
  The network. A request is what \<^verbatim>\<open>fetch\<close> is called with; its outcome is a response
  (status and body text) or a rejection. The \<open>k\<close>-th call of \<^verbatim>\<open>fetch\<close> receives
  \<open>net k\<close>. The trace records every call and every back-off delay (milliseconds) in order.
\<close>

record request =
  req_url :: string
  req_method :: string
  req_token :: string
  req_body :: "json option"

datatype fetchResult = FetchRejected string | FetchResponse nat string

datatype netEvent = EFetch request | ESleep nat

type_synonym network = "nat \<Rightarrow> fetchResult"

definition isFetch :: "netEvent \<Rightarrow> bool" where
  "isFetch ev = (case ev of EFetch r \<Rightarrow> True | ESleep d \<Rightarrow> False)"

definition fetchCount :: "netEvent list \<Rightarrow> nat" where
  "fetchCount tr = length (filter isFetch tr)"

definition baseUrl :: string where
  "baseUrl = ''https://api.notion.com/v1''"

text \<open>\<^verbatim>\<open>response.ok\<close>\<close>

definition ok :: "nat \<Rightarrow> bool" where
  "ok status \<longleftrightarrow> 200 \<le> status \<and> status \<le> 299"

text \<open>
  The message of a failed response: the body's \<^verbatim>\<open>message\<close> when the body parses and has
  one, else the body text, else the status line. A parsed \<^verbatim>\<open>null\<close> makes the property
  access throw, which the inner \<^verbatim>\<open>catch\<close> turns into the body text. A \<^verbatim>\<open>message\<close> that
  is not a string is outside \<^verbatim>\<open>NotionError\<close> and is read here as absent.
\<close>

definition errorMessageOf :: "'a platform_scheme \<Rightarrow> nat \<Rightarrow> string \<Rightarrow> string" where
  "errorMessageOf p status errorBody =
     (let httpStatus = ''HTTP '' @ showNat status
      in case JSON_parse p errorBody of
           None \<Rightarrow> (if errorBody \<noteq> [] then errorBody else httpStatus)
         | Some JNull \<Rightarrow> (if errorBody \<noteq> [] then errorBody else httpStatus)
         | Some errorJson \<Rightarrow>
             (case getProp errorJson ''message'' of
                Some (JStr m) \<Rightarrow> (if m \<noteq> [] then m else httpStatus)
              | _ \<Rightarrow> httpStatus))"

text \<open>
  \<^verbatim>\<open>callNotion\<close>. The recursion is on \<^verbatim>\<open>attempt\<close>, which both retry rules bound. The
  result is the parsed body (\<open>Inr\<close>) or the message of what was thrown (\<open>Inl\<close>).
\<close>

function callNotion ::
    "'a platform_scheme \<Rightarrow> network \<Rightarrow> request \<Rightarrow> nat \<Rightarrow> netEvent list
     \<Rightarrow> (string + json) \<times> netEvent list" where
  "callNotion p net req attempt tr =
     (let tr1 = tr @ [EFetch req]
      in case net (fetchCount tr) of
           FetchRejected msg \<Rightarrow> (Inl msg, tr1)
         | FetchResponse status body \<Rightarrow>
             if \<not> ok status then
               (if status = 429 \<and> attempt \<le> 3
                then callNotion p net req (attempt + 1) (tr1 @ [ESleep (2 ^ attempt * 1000)])
                else if status \<ge> 500 \<and> attempt \<le> 2
                then callNotion p net req (attempt + 1) (tr1 @ [ESleep (attempt * 2000)])
                else (Inl (''Notion API error: '' @ errorMessageOf p status body), tr1))
             else (case JSON_parse p body of
                     None \<Rightarrow> (Inl ''Unexpected token in JSON'', tr1)
                   | Some j \<Rightarrow> (Inr j, tr1)))"
  by pat_completeness auto
termination
  by (relation "measure (\<lambda>(p, net, req, attempt, tr). 4 - attempt)") auto

declare callNotion.simps [simp del]

definition mkRequest :: "string \<Rightarrow> string \<Rightarrow> string \<Rightarrow> json option \<Rightarrow> request" where
  "mkRequest token endpoint method body =
     \<lparr>req_url = baseUrl @ endpoint, req_method = method, req_token = token, req_body = body\<rparr>"

definition queryRequest :: "string \<Rightarrow> string \<Rightarrow> string \<Rightarrow> request" where
  "queryRequest token databaseId taskHash =
     mkRequest token (''/databases/'' @ databaseId @ ''/query'') ''POST''
       (Some (JObj [(''filter'',
                JObj [(''property'', JStr ''Task ID''),
                      (''rich_text'', JObj [(''equals'', JStr taskHash)])])]))"

text \<open>
  \<^verbatim>\<open>response.results && response.results.length > 0\<close>, as the \<^verbatim>\<open>if\<close> reads it. The
  store answers a query with an array of results; for a \<^verbatim>\<open>results\<close> object the
  comparison is modelled for a numeric \<^verbatim>\<open>length\<close> only.
\<close>

definition hasResults :: "json \<Rightarrow> bool" where
  "hasResults response =
     (case getProp response ''results'' of
        Some (JArr xs) \<Rightarrow> xs \<noteq> []
      | Some (JStr s) \<Rightarrow> s \<noteq> []
      | Some (JObj kvs) \<Rightarrow> (case map_of kvs ''length'' of Some (JNum n) \<Rightarrow> n > 0 | _ \<Rightarrow> False)
      | _ \<Rightarrow> False)"

text \<open>\<^verbatim>\<open>taskExists\<close>: whatever is thrown inside is caught and answered \<^verbatim>\<open>false\<close>.\<close>

definition taskExists ::
    "'a platform_scheme \<Rightarrow> network \<Rightarrow> string \<Rightarrow> string \<Rightarrow> string \<Rightarrow> netEvent list
     \<Rightarrow> bool \<times> netEvent list" where
  "taskExists p net token databaseId taskHash tr =
     (case callNotion p net (queryRequest token databaseId taskHash) 1 tr of
        (Inl err, tr') \<Rightarrow> (False, tr')
      | (Inr JNull, tr') \<Rightarrow> (False, tr')
      | (Inr response, tr') \<Rightarrow> (hasResults response, tr'))"

definition createText :: "string \<Rightarrow> json" where
  "createText s = JArr [JObj [(''text'', JObj [(''content'', JStr (take 2000 s))])]]"

definition createRichText :: "string \<Rightarrow> json" where
  "createRichText s = JObj [(''rich_text'', createText s)]"

definition createTitle :: "string \<Rightarrow> json" where
  "createTitle s = JObj [(''title'', createText s)]"

definition createDate :: "string \<Rightarrow> json" where
  "createDate dateString = JObj [(''date'', JObj [(''start'', JStr dateString)])]"

definition createStatus :: "string \<Rightarrow> json" where
  "createStatus v = JObj [(''status'', JObj [(''name'', JStr v)])]"

definition createMultiSelect :: "string list \<Rightarrow> json" where
  "createMultiSelect vs = JObj [(''multi_select'', JArr (map (\<lambda>v. JObj [(''name'', JStr v)]) vs))]"

definition buildPageProperties :: "TaskWithMeta \<Rightarrow> json" where
  "buildPageProperties task =
     JObj ([(''Name'', createTitle (title task)),
            (''Status'', createStatus ''Not started''),
            (''Task ID'', createRichText (hash task)),
            (''Captured From'', createRichText ''Brain Dump'')]
           @ (case due task of
                Some d \<Rightarrow> (if d \<noteq> [] then [(''Due Date'', createDate d)] else [])
              | None \<Rightarrow> [])
           @ (case tags task of
                Some ts \<Rightarrow> (if ts \<noteq> [] then [(''Tags'', createMultiSelect ts)] else [])
              | None \<Rightarrow> []))"

definition createRequest :: "string \<Rightarrow> string \<Rightarrow> TaskWithMeta \<Rightarrow> request" where
  "createRequest token databaseId task =
     mkRequest token ''/pages'' ''POST''
       (Some (JObj [(''parent'', JObj [(''database_id'', JStr databaseId)]),
                    (''properties'', buildPageProperties task)]))"

definition existing :: NotionSyncResult where
  "existing = \<lparr>success = True, pageId = Some (JStr ''existing''),
               pageUrl = Some (JStr ''existing''), error = None\<rparr>"

definition failed :: "string \<Rightarrow> NotionSyncResult" where
  "failed msg = \<lparr>success = False, pageId = None, pageUrl = None, error = Some msg\<rparr>"

text \<open>
  \<^verbatim>\<open>createTask\<close>: the existence check first; then the create request. Reading
  \<^verbatim>\<open>response.id\<close> of a \<^verbatim>\<open>null\<close> response throws, which the outer \<^verbatim>\<open>catch\<close> reports
  like every other failure.
\<close>

definition createTask ::
    "'a platform_scheme \<Rightarrow> network \<Rightarrow> string \<Rightarrow> string \<Rightarrow> TaskWithMeta \<Rightarrow> netEvent list
     \<Rightarrow> NotionSyncResult \<times> netEvent list" where
  "createTask p net token databaseId task tr =
     (case taskExists p net token databaseId (hash task) tr of
        (True, tr1) \<Rightarrow> (existing, tr1)
      | (False, tr1) \<Rightarrow>
          (case callNotion p net (createRequest token databaseId task) 1 tr1 of
             (Inl err, tr2) \<Rightarrow> (failed err, tr2)
           | (Inr JNull, tr2) \<Rightarrow> (failed ''Cannot read properties of null'', tr2)
           | (Inr response, tr2) \<Rightarrow>
               (\<lparr>success = True, pageId = getProp response ''id'',
                 pageUrl = getProp response ''url'', error = None\<rparr>, tr2)))"

text \<open>
  \<^verbatim>\<open>syncTasks\<close>: batches of \<^verbatim>\<open>maxConcurrency\<close> tasks, each batch awaited as a whole, the
  results appended in order. The calls of a batch run concurrently; what the call for the
  task at position \<open>i\<close> resolves to is given (\<open>run i task\<close>; \<^verbatim>\<open>createTask\<close> never
  rejects). With \<^verbatim>\<open>maxConcurrency = 0\<close> the loop variable never advances and the call
  does not return: \<open>None\<close>.
\<close>

function syncLoop ::
    "(nat \<Rightarrow> TaskWithMeta \<Rightarrow> NotionSyncResult) \<Rightarrow> nat \<Rightarrow> TaskWithMeta list \<Rightarrow> nat
     \<Rightarrow> NotionSyncResult list \<Rightarrow> NotionSyncResult list option" where
  "syncLoop run maxConcurrency tasks i results =
     (if i < length tasks
      then (if maxConcurrency = 0 then None
            else syncLoop run maxConcurrency tasks (i + maxConcurrency)
                   (results @ map (\<lambda>k. run k (tasks ! k))
                                [i ..< min (i + maxConcurrency) (length tasks)]))
      else Some results)"
  by pat_completeness auto
termination
  by (relation "measure (\<lambda>(run, maxConcurrency, tasks, i, results). length tasks - i)") auto

declare syncLoop.simps [simp del]

definition syncTasks ::
    "(nat \<Rightarrow> TaskWithMeta \<Rightarrow> NotionSyncResult) \<Rightarrow> nat \<Rightarrow> TaskWithMeta list
     \<Rightarrow> NotionSyncResult list option" where
  "syncTasks run maxConcurrency tasks = syncLoop run maxConcurrency tasks 0 []"

section \<open>Orchestrator (runner-hourly.ts)\<close>

record ExtractionResult =
  tasks :: "ExtractedTask list"
  chunk :: FileChunk

record Preferences =
  inboxDir :: string
  openaiKey :: string
  openaiModel :: string
  notionToken :: string
  notionDbId :: string
  enableScheduled :: bool

text \<open>
  The services a run calls over the network, by what they answer: whether
  \<^verbatim>\<open>performHealthChecks\<close> finds all healthy, what
  \<^verbatim>\<open>taskExtractor.extractTasksFromChunks\<close> returns for the chunks (\<open>Inl\<close> when it throws),
  and what \<^verbatim>\<open>notionClient.createTask\<close> resolves to for the task at each position.
\<close>

record services =
  allHealthy :: bool
  extractTasksFromChunks :: "FileChunk list \<Rightarrow> string + ExtractionResult list"
  createTaskResult :: "nat \<Rightarrow> TaskWithMeta \<Rightarrow> NotionSyncResult"

text \<open>"Flatten and deduplicate tasks": the two nested loops.\<close>

definition collectTask ::
    "'a env_scheme \<Rightarrow> AppState \<Rightarrow> FileChunk \<Rightarrow> nat \<times> ExtractedTask \<Rightarrow> TaskWithMeta list" where
  "collectTask e st c it =
     (case it of (i, task) \<Rightarrow>
        (let h = generateTaskHash e task (chunk_filePath c) i
         in if isTaskProcessed st h then []
            else [\<lparr>title = title task, due = due task, tags = tags task, hash = h,
                    task_filePath = chunk_filePath c, lineIndex = i,
                    extractedAt = nowISO e\<rparr>]))"

definition collectTasks ::
    "'a env_scheme \<Rightarrow> AppState \<Rightarrow> ExtractionResult list \<Rightarrow> TaskWithMeta list" where
  "collectTasks e st extractionResults =
     concat (map (\<lambda>result. concat (map (collectTask e st (chunk result))
                                      (enumerate 0 (tasks result))))
                 extractionResults)"

text \<open>
  "Mark successfully synced tasks as processed": the loop runs over \<^verbatim>\<open>syncResults\<close> and
  reads \<^verbatim>\<open>allTasks[i]\<close>; reading \<^verbatim>\<open>task.hash\<close> beyond the end of \<^verbatim>\<open>allTasks\<close> throws. The
  loop's variables are the manager and \<^verbatim>\<open>successCount\<close>.
\<close>

primrec markLoop ::
    "TaskWithMeta list \<Rightarrow> NotionSyncResult list \<Rightarrow> nat \<Rightarrow> World \<times> nat
     \<Rightarrow> (string + nat) \<times> World" where
  "markLoop allTasks [] i acc = (Inr (snd acc), fst acc)"
| "markLoop allTasks (result # rest) i acc =
     (if success result
      then (if i < length allTasks
            then markLoop allTasks rest (i + 1)
                   (markTaskProcessed (hash (allTasks ! i)) (fst acc), snd acc + 1)
            else (Inl ''Cannot read properties of undefined'', fst acc))
      else markLoop allTasks rest (i + 1) acc)"

definition logEvent :: "event \<Rightarrow> World \<Rightarrow> World" where
  "logEvent ev w = w\<lparr>events := events w @ [ev]\<rparr>"

text \<open>
  \<^verbatim>\<open>Command\<close>: whatever is thrown inside is caught and logged, so the run ends with the
  manager as it was at that point.
\<close>

definition Command :: "'a env_scheme \<Rightarrow> Preferences \<Rightarrow> services \<Rightarrow> World \<Rightarrow> World" where
  "Command e preferences sv w =
     (if \<not> enableScheduled preferences then w
      else if \<not> allHealthy sv then w
      else
        (case ingestFiles e (inboxDir preferences) w of
           (Inl err, w1) \<Rightarrow> w1
         | (Inr chunks, w1) \<Rightarrow>
             if chunks = [] then snd (updateLastRun e w1)
             else
               (let w2 = logEvent (ExtractionCalled chunks) w1
                in case extractTasksFromChunks sv chunks of
                     Inl err \<Rightarrow> w2
                   | Inr extractionResults \<Rightarrow>
                       (let allTasks = collectTasks e (state w2) extractionResults
                        in if allTasks = [] then snd (updateLastRun e w2)
                           else
                             (let w3 = logEvent (SyncCalled allTasks) w2
                              in case syncTasks (createTaskResult sv) 3 allTasks of
                                   None \<Rightarrow> w3
                                 | Some syncResults \<Rightarrow>
                                     (case markLoop allTasks syncResults 0 (w3, 0) of
                                        (Inl err, w4) \<Rightarrow> w4
                                      | (Inr successCount, w4) \<Rightarrow>
                                          (case cleanup e defaultMaxEntries w4 of
                                             (Inl err, w5) \<Rightarrow> w5
                                           | (Inr u, w5) \<Rightarrow> snd (updateLastRun e w5))))))))"

section \<open>Auxiliary notions for the proofs\<close>

text \<open>The contents emitted so far, the open chunk included when it is not empty, and their lines.\<close>

definition pieces :: "chunkState \<Rightarrow> string list" where
  "pieces st = (case st of (chunks, currentChunk, idx) \<Rightarrow>
      map chunk_content chunks @ (if currentChunk = [] then [] else [currentChunk]))"

definition linesOf :: "string list \<Rightarrow> string list" where
  "linesOf ps = concat (map split_nl ps)"

text \<open>Indices: the chunks closed so far are numbered 0, 1, ... and the counter is their number.\<close>

definition indexed :: "chunkState \<Rightarrow> bool" where
  "indexed st = (case st of (chunks, cur, idx) \<Rightarrow>
      map chunkIndex chunks = [0..<idx])"

text \<open>Size: an open or closed chunk is within the limit or is a single line.\<close>

definition bounded :: "nat \<Rightarrow> chunkState \<Rightarrow> bool" where
  "bounded m st = (case st of (chunks, cur, idx) \<Rightarrow>
      (\<forall>c \<in> set chunks. length (chunk_content c) \<le> m \<or> nl \<notin> set (chunk_content c))
      \<and> (length cur \<le> m \<or> nl \<notin> set cur))"

text \<open>
  Whether, in the loop over the lines, an empty line becomes the first line of a chunk: it
  is the line at hand while no chunk is open, or while the open chunk is closed because
  the line does not fit. The argument is \<^verbatim>\<open>currentChunk\<close>.
\<close>

primrec blankOpens :: "nat \<Rightarrow> string list \<Rightarrow> string \<Rightarrow> bool" where
  "blankOpens maxSize [] currentChunk = False"
| "blankOpens maxSize (line # rest) currentChunk =
     (let newChunk = (if currentChunk \<noteq> [] then currentChunk @ nl # line else line);
          closes = (length newChunk > maxSize \<and> currentChunk \<noteq> [])
      in (line = [] \<and> (currentChunk = [] \<or> closes))
         \<or> blankOpens maxSize rest (if closes then line else newChunk))"

text \<open>Sample documents.\<close>

definition threeLineDoc :: FileContent where
  "threeLineDoc = \<lparr>filePath = ''notes.md'', content = ''ab'' @ nl # ''cd'' @ nl # ''ef'',
                     modifiedTime = 0, isModified = True\<rparr>"

definition blankLineDoc :: FileContent where
  "blankLineDoc = \<lparr>filePath = ''notes.md'',
                     content = ''ab'' @ nl # nl # ''cd'' @ nl # ''ef'' @ [nl],
                     modifiedTime = 0, isModified = True\<rparr>"


definition longLineDoc :: FileContent where
  "longLineDoc = \<lparr>filePath = ''notes.md'', content = replicate 8001 (CHR ''a''),
                    modifiedTime = 0, isModified = True\<rparr>"

definition blankFirstDoc :: FileContent where
  "blankFirstDoc = \<lparr>filePath = ''notes.md'', content = nl # replicate 8000 (CHR ''a''),
                    modifiedTime = 0, isModified = True\<rparr>"

text \<open>A sample platform, file system and state manager, for evaluating the model.\<close>

definition sampleStringify :: "json \<Rightarrow> string" where
  "sampleStringify j =
     (case j of
        JObj [(k1, JStr t), (k2, JStr f), (k3, JNum i)] \<Rightarrow> t @ ''|'' @ f @ ''|'' @ showNat (nat i)
      | _ \<Rightarrow> ''{}'')"

text \<open>\<^verbatim>\<open>JSON.parse\<close> on the bodies the examples use; every other text is taken as malformed.\<close>

definition sampleParse :: "string \<Rightarrow> json option" where
  "sampleParse s =
     map_of [(''{}'', JObj []),
             (''null'', JNull),
             (''{\"results\":[]}'', JObj [(''results'', JArr [])]),
             (''{\"results\":[{\"id\":\"p1\"}]}'',
                JObj [(''results'', JArr [JObj [(''id'', JStr ''p1'')]])]),
             (''{\"id\":\"p1\",\"url\":\"u1\"}'',
                JObj [(''id'', JStr ''p1''), (''url'', JStr ''u1'')]),
             (''{\"message\":\"Rate limited\"}'', JObj [(''message'', JStr ''Rate limited'')])] s"

definition samplePlatform :: platform where
  "samplePlatform = \<lparr>JSON_parse = sampleParse, JSON_stringify = sampleStringify,
      sha256_hex = (\<lambda>s. s), path_resolve = (\<lambda>s. s),
      path_join = (\<lambda>a b. a @ ''/'' @ b), homedir = ''/home/u''\<rparr>"

definition sampleEnv :: env where
  "sampleEnv = \<lparr>JSON_parse = sampleParse, JSON_stringify = sampleStringify,
      sha256_hex = (\<lambda>s. s), path_resolve = (\<lambda>s. s),
      path_join = (\<lambda>a b. a @ ''/'' @ b), homedir = ''/home/u'',
      fsStat = (\<lambda>fp. if fp = ''/inbox'' then Some (True, 1)
                       else if fp = ''/inbox/a.md'' then Some (False, 5) else None),
      fsReadFile = (\<lambda>fp. if fp = ''/inbox/a.md'' then Some ''- [ ] buy milk'' else None),
      fsReaddir = (\<lambda>fp. if fp = ''/inbox'' then Some [''a.md'', ''b.txt''] else None),
      diskWritable = True, nowMs = 1000, nowISO = ''2025-08-15T10:00:00.000Z''\<rparr>"

definition emptyWorld :: World where
  "emptyWorld = \<lparr>state = defaultState, ledger = Missing, events = []\<rparr>"

definition twoHashes :: World where
  "twoHashes = \<lparr>state = \<lparr>lastRun = None, processedTasks = [''h1'', ''h2''], lastModifiedTimes = []\<rparr>,
                 ledger = Missing, events = []\<rparr>"

text \<open>What one call adds to the trace.\<close>

definition callShape :: "request \<Rightarrow> nat \<Rightarrow> netEvent list \<Rightarrow> bool" where
  "callShape req attempt ext \<longleftrightarrow>
     (\<exists>ds. ext = concat (map (\<lambda>d. [EFetch req, ESleep d]) ds) @ [EFetch req]
           \<and> length ds \<le> 4 - attempt)"

text \<open>
  The requests of a trace, and the records the store has created: one for each create
  request (\<^verbatim>\<open>POST /pages\<close>) that it answered with a success status.
\<close>

definition fetches :: "netEvent list \<Rightarrow> request list" where
  "fetches tr = concat (map (\<lambda>ev. case ev of EFetch r \<Rightarrow> [r] | ESleep d \<Rightarrow> []) tr)"

definition isCreate :: "request \<Rightarrow> bool" where
  "isCreate r \<longleftrightarrow> req_url r = baseUrl @ ''/pages'' \<and> req_method r = ''POST''"

definition answeredOk :: "network \<Rightarrow> nat \<Rightarrow> bool" where
  "answeredOk net k = (case net k of FetchResponse status body \<Rightarrow> ok status | FetchRejected msg \<Rightarrow> False)"

fun createdFrom :: "network \<Rightarrow> nat \<Rightarrow> netEvent list \<Rightarrow> nat" where
  "createdFrom net k [] = 0"
| "createdFrom net k (EFetch r # tr) =
     (if isCreate r \<and> answeredOk net k then 1 else 0) + createdFrom net (k + 1) tr"
| "createdFrom net k (ESleep d # tr) = createdFrom net k tr"

definition createdCount :: "network \<Rightarrow> netEvent list \<Rightarrow> nat" where
  "createdCount net tr = createdFrom net 0 tr"

text \<open>A sample task and sample networks.\<close>

definition sampleTask :: TaskWithMeta where
  "sampleTask = \<lparr>title = ''Buy milk'', due = Some ''2025-08-16'', tags = Some [''shopping''],
                  hash = ''0123456789abcdef'', task_filePath = ''/inbox/a.md'', lineIndex = 0,
                  extractedAt = ''2025-08-15T10:00:00.000Z''\<rparr>"

definition rateLimitedOnce :: network where
  "rateLimitedOnce k = (if k = 0 then FetchResponse 429 ''{\"message\":\"Rate limited\"}''
                        else FetchResponse 200 ''{\"id\":\"p1\",\"url\":\"u1\"}'')"

definition alwaysRateLimited :: network where
  "alwaysRateLimited k = FetchResponse 429 ''{\"message\":\"Rate limited\"}''"

definition alwaysUnavailable :: network where
  "alwaysUnavailable k = FetchResponse 503 []"


definition checkFails :: network where
  "checkFails k =
     (if k = 0 then FetchResponse 400 ''{}''
      else FetchResponse 200 ''{\"id\":\"p1\",\"url\":\"u1\"}'')"


definition markAll :: "string list \<Rightarrow> World \<Rightarrow> World" where
  "markAll hs w = foldl (\<lambda>w h. markTaskProcessed h w) w hs"

text \<open>The events that advance a watermark, and those a run logs after the hand-off.\<close>

definition isWatermark :: "event \<Rightarrow> bool" where
  "isWatermark ev = (case ev of WatermarkAdvanced fp m \<Rightarrow> True | _ \<Rightarrow> False)"

definition watermarkEvents :: "'a env_scheme \<Rightarrow> FileContent list \<Rightarrow> event list" where
  "watermarkEvents e fcs =
     concat (map (\<lambda>fc. case fsStat e (filePath fc) of
                          None \<Rightarrow> []
                        | Some (isDir, m) \<Rightarrow> [WatermarkAdvanced (filePath fc) m]) fcs)"

definition quietExt :: "World \<Rightarrow> World \<Rightarrow> bool" where
  "quietExt w w' \<longleftrightarrow> (\<exists>ext. events w' = events w @ ext \<and> (\<forall>ev \<in> set ext. \<not> isWatermark ev))"

definition pathsOk :: "string \<Rightarrow> chunkState \<Rightarrow> bool" where
  "pathsOk fp st = (case st of (chunks, cur, idx) \<Rightarrow> \<forall>c \<in> set chunks. chunk_filePath c = fp)"


definition firstSucceeds :: "nat \<Rightarrow> TaskWithMeta \<Rightarrow> NotionSyncResult" where
  "firstSucceeds k task =
     (if k = 0 then \<lparr>success = True, pageId = Some (JStr ''p1''), pageUrl = Some (JStr ''u1''), error = None\<rparr>
      else failed ''Notion API error: Invalid properties'')"

definition samplePreferences :: Preferences where
  "samplePreferences = \<lparr>inboxDir = ''/inbox'', openaiKey = ''sk'', openaiModel = ''gpt'',
      notionToken = ''secret'', notionDbId = ''db1'', enableScheduled = True\<rparr>"

definition sampleServices :: services where
  "sampleServices = \<lparr>allHealthy = True,
      extractTasksFromChunks =
        (\<lambda>cs. Inr (map (\<lambda>c. \<lparr>tasks = [\<lparr>title = ''Buy milk'', due = None, tags = None\<rparr>], chunk = c\<rparr>) cs)),
      createTaskResult = firstSucceeds\<rparr>"


definition sampleChunk :: FileChunk where
  "sampleChunk = \<lparr>chunk_filePath = ''/inbox/a.md'', chunk_content = ''- [ ] buy milk'',
                   chunkIndex = 0, totalChunks = 1\<rparr>"

section \<open>Lines, splitting and joining\<close>

lemma split_nl_ne [simp]: "split_nl s \<noteq> []"
  by (induction s) (auto split: list.splits)

lemma join_nl_Cons: "ys \<noteq> [] \<Longrightarrow> join_nl (x # ys) = x @ nl # join_nl ys"
  by (cases ys) auto

lemma join_split_nl [simp]: "join_nl (split_nl s) = s"
proof (induction s)
  case Nil
  then show ?case by simp
next
  case (Cons c cs)
  obtain l ls where sp: "split_nl cs = l # ls"
    by (cases "split_nl cs") auto
  show ?case
  proof (cases "c = nl")
    case True
    with Cons show ?thesis by (simp add: join_nl_Cons)
  next
    case False
    with Cons sp show ?thesis by (cases ls) auto
  qed
qed

lemma split_nl_no_nl: "nl \<notin> set s \<Longrightarrow> split_nl s = [s]"
  by (induction s) auto

lemma split_nl_append: "split_nl (a @ nl # b) = split_nl a @ split_nl b"
  by (induction a) (auto split: list.splits)

lemma split_nl_lines: "l \<in> set (split_nl s) \<Longrightarrow> nl \<notin> set l"
  by (induction s arbitrary: l) (auto split: list.splits if_splits)

lemma nl_in_iff_lines: "nl \<in> set s \<longleftrightarrow> 2 \<le> length (split_nl s)"
  by (induction s) (auto split: list.splits)

lemma join_nl_append:
  "xs \<noteq> [] \<Longrightarrow> ys \<noteq> [] \<Longrightarrow> join_nl (xs @ ys) = join_nl xs @ nl # join_nl ys"
proof (induction xs)
  case Nil
  then show ?case by simp
next
  case (Cons x xs)
  then show ?case by (cases xs) (auto simp: join_nl_Cons)
qed

lemma join_nl_linesOf: "join_nl (linesOf ps) = join_nl ps"
proof (induction ps)
  case Nil
  then show ?case by (simp add: linesOf_def)
next
  case (Cons p ps)
  show ?case
  proof (cases ps)
    case Nil
    then show ?thesis by (simp add: linesOf_def)
  next
    case (Cons q qs)
    then have ne: "linesOf ps \<noteq> []" by (simp add: linesOf_def)
    have "linesOf (p # ps) = split_nl p @ linesOf ps" by (simp add: linesOf_def)
    then have "join_nl (linesOf (p # ps)) = p @ nl # join_nl (linesOf ps)"
      using ne by (simp add: join_nl_append)
    with Cons.IH Cons show ?thesis by (simp add: local.Cons)
  qed
qed


section \<open>The chunking loop\<close>

lemma chunkStep_cases:
  obtains
    (first) "cur = []" "chunkStep m fp (chunks, cur, idx) line = (chunks, line, idx)"
  | (close) "cur \<noteq> []" "length (cur @ nl # line) > m"
      "chunkStep m fp (chunks, cur, idx) line
       = (chunks @ [\<lparr>chunk_filePath = fp, chunk_content = cur, chunkIndex = idx, totalChunks = 0\<rparr>],
          line, idx + 1)"
  | (extend) "cur \<noteq> []" "length (cur @ nl # line) \<le> m"
      "chunkStep m fp (chunks, cur, idx) line = (chunks, cur @ nl # line, idx)"
proof (cases "cur = []")
  case True
  then show ?thesis using first by (simp add: chunkStep_def)
next
  case False
  show ?thesis
  proof (cases "length (cur @ nl # line) > m")
    case True
    with False show ?thesis using close by (simp add: chunkStep_def)
  next
    case nb: False
    with False show ?thesis using extend by (simp add: chunkStep_def)
  qed
qed

lemma linesOf_append: "linesOf (xs @ ys) = linesOf xs @ linesOf ys"
  by (simp add: linesOf_def)

lemma linesOf_Nil: "linesOf [] = []"
  by (simp add: linesOf_def)

lemma linesOf_Cons: "linesOf (p # ps) = split_nl p @ linesOf ps"
  by (simp add: linesOf_def)

lemma pieces_step_gen:
  assumes "nl \<notin> set line"
  shows "\<exists>ls. (ls = [] \<or> ls = [line]) \<and> (line \<noteq> [] \<longrightarrow> ls = [line])
           \<and> linesOf (pieces (chunkStep m fp st line)) = linesOf (pieces st) @ ls"
proof -
  obtain chunks cur idx where st: "st = (chunks, cur, idx)" by (cases st) auto
  show ?thesis
  proof (cases rule: chunkStep_cases [of cur m fp chunks idx line])
    case first
    show ?thesis
    proof (cases "line = []")
      case True
      with first show ?thesis by (simp add: st pieces_def)
    next
      case False
      with first assms show ?thesis
        by (simp add: st pieces_def linesOf_append linesOf_Nil linesOf_Cons split_nl_no_nl)
    qed
  next
    case close
    show ?thesis
    proof (cases "line = []")
      case True
      with close show ?thesis by (simp add: st pieces_def linesOf_append linesOf_Nil linesOf_Cons)
    next
      case False
      with close assms show ?thesis
        by (simp add: st pieces_def linesOf_append linesOf_Nil linesOf_Cons split_nl_no_nl)
    qed
  next
    case extend
    with assms show ?thesis
      by (simp add: st pieces_def linesOf_append linesOf_Nil linesOf_Cons split_nl_append split_nl_no_nl)
  qed
qed

lemma pieces_step:
  assumes "nl \<notin> set line"
  shows "filter (\<lambda>l. l \<noteq> []) (linesOf (pieces (chunkStep m fp st line)))
         = filter (\<lambda>l. l \<noteq> []) (linesOf (pieces st)) @ filter (\<lambda>l. l \<noteq> []) [line]"
proof -
  from pieces_step_gen [OF assms, of m fp st] obtain ls where
    ls: "ls = [] \<or> ls = [line]" "line \<noteq> [] \<longrightarrow> ls = [line]"
    and eq: "linesOf (pieces (chunkStep m fp st line)) = linesOf (pieces st) @ ls"
    by blast
  from ls have "filter (\<lambda>l. l \<noteq> []) ls = filter (\<lambda>l. l \<noteq> []) [line]"
    by (cases "line = []") auto
  with eq show ?thesis by simp
qed

lemma pieces_step_full:
  assumes "nl \<notin> set line" and "line \<noteq> []"
  shows "linesOf (pieces (chunkStep m fp st line)) = linesOf (pieces st) @ [line]"
  using pieces_step_gen [OF assms(1), of m fp st] assms(2) by auto

lemma pieces_loop:
  "\<forall>l \<in> set lines. nl \<notin> set l \<Longrightarrow>
   filter (\<lambda>l. l \<noteq> []) (linesOf (pieces (chunkLoop m fp lines st)))
   = filter (\<lambda>l. l \<noteq> []) (linesOf (pieces st)) @ filter (\<lambda>l. l \<noteq> []) lines"
proof (induction lines arbitrary: st)
  case Nil
  then show ?case by simp
next
  case (Cons line rest)
  have a: "nl \<notin> set line" and b: "\<forall>l \<in> set rest. nl \<notin> set l"
    using Cons.prems by simp_all
  have "filter (\<lambda>l. l \<noteq> []) (linesOf (pieces (chunkLoop m fp (line # rest) st)))
        = filter (\<lambda>l. l \<noteq> []) (linesOf (pieces (chunkStep m fp st line)))
          @ filter (\<lambda>l. l \<noteq> []) rest"
    using Cons.IH [OF b] by simp
  also have "\<dots> = (filter (\<lambda>l. l \<noteq> []) (linesOf (pieces st)) @ filter (\<lambda>l. l \<noteq> []) [line])
          @ filter (\<lambda>l. l \<noteq> []) rest"
    by (simp only: pieces_step [OF a])
  finally show ?case by simp
qed

lemma pieces_loop_full:
  "\<forall>l \<in> set lines. nl \<notin> set l \<and> l \<noteq> [] \<Longrightarrow>
   linesOf (pieces (chunkLoop m fp lines st)) = linesOf (pieces st) @ lines"
proof (induction lines arbitrary: st)
  case Nil
  then show ?case by simp
next
  case (Cons line rest)
  have a: "nl \<notin> set line" "line \<noteq> []" and b: "\<forall>l \<in> set rest. nl \<notin> set l \<and> l \<noteq> []"
    using Cons.prems by simp_all
  have "linesOf (pieces (chunkLoop m fp (line # rest) st))
        = linesOf (pieces (chunkStep m fp st line)) @ rest"
    using Cons.IH [OF b] by simp
  then show ?case by (simp add: pieces_step_full [OF a])
qed

lemma pushLast_pieces: "map chunk_content (pushLast fp st) = pieces st"
  by (cases st) (simp add: pushLast_def pieces_def)

lemma indexed_step: "indexed st \<Longrightarrow> indexed (chunkStep m fp st line)"
proof -
  assume a: "indexed st"
  obtain chunks cur idx where st: "st = (chunks, cur, idx)" by (cases st) auto
  from a have m: "map chunkIndex chunks = [0..<idx]" by (simp add: st indexed_def)
  show ?thesis
  proof (cases rule: chunkStep_cases [of cur m fp chunks idx line])
    case first
    with m show ?thesis by (simp add: st indexed_def)
  next
    case close
    with m show ?thesis by (simp add: st indexed_def)
  next
    case extend
    with m show ?thesis by (simp add: st indexed_def)
  qed
qed

lemma indexed_loop: "indexed st \<Longrightarrow> indexed (chunkLoop m fp lines st)"
  by (induction lines arbitrary: st) (auto simp: indexed_step)

lemma indexed_pushLast:
  "indexed st \<Longrightarrow> map chunkIndex (pushLast fp st) = [0..<length (pushLast fp st)]"
proof -
  assume a: "indexed st"
  obtain chunks cur idx where st: "st = (chunks, cur, idx)" by (cases st) auto
  from a st have m: "map chunkIndex chunks = [0..<idx]" by (simp add: indexed_def)
  then have "length chunks = idx" by (metis length_map length_upt diff_zero)
  with m show ?thesis by (simp add: st pushLast_def)
qed

lemma bounded_step:
  assumes "bounded m st" and "nl \<notin> set line"
  shows "bounded m (chunkStep m fp st line)"
proof -
  obtain chunks cur idx where st: "st = (chunks, cur, idx)" by (cases st) auto
  from assms(1) have
    c: "\<forall>c \<in> set chunks. length (chunk_content c) \<le> m \<or> nl \<notin> set (chunk_content c)"
    and u: "length cur \<le> m \<or> nl \<notin> set cur"
    by (simp_all add: st bounded_def)
  show ?thesis
  proof (cases rule: chunkStep_cases [of cur m fp chunks idx line])
    case first
    with c assms(2) show ?thesis by (simp add: st bounded_def)
  next
    case close
    with c u assms(2) show ?thesis by (simp add: st bounded_def)
  next
    case extend
    with c show ?thesis by (simp add: st bounded_def)
  qed
qed

lemma bounded_loop:
  "bounded m st \<Longrightarrow> \<forall>l \<in> set lines. nl \<notin> set l \<Longrightarrow> bounded m (chunkLoop m fp lines st)"
  by (induction lines arbitrary: st) (auto simp: bounded_step)

lemma bounded_pushLast:
  "bounded m st \<Longrightarrow> c \<in> set (pushLast fp st)
   \<Longrightarrow> length (chunk_content c) \<le> m \<or> nl \<notin> set (chunk_content c)"
  by (cases st) (auto simp: bounded_def pushLast_def split: if_splits)


section \<open>Chunking a document\<close>

lemma chunkContentWith_large:
  assumes "length (content fc) > maxSize"
  shows "chunkContentWith maxSize fc
         = map (\<lambda>chunk. chunk\<lparr>totalChunks :=
                  length (pushLast (filePath fc)
                    (chunkLoop maxSize (filePath fc) (split_nl (content fc)) ([], [], 0)))\<rparr>)
               (pushLast (filePath fc)
                  (chunkLoop maxSize (filePath fc) (split_nl (content fc)) ([], [], 0)))"
  using assms by (simp add: chunkContentWith_def Let_def)

lemma map_content_total:
  "map (chunk_content \<circ> (\<lambda>chunk. chunk\<lparr>totalChunks := n\<rparr>)) xs = map chunk_content xs"
  by (induction xs) auto

lemma map_index_total:
  "map (chunkIndex \<circ> (\<lambda>chunk. chunk\<lparr>totalChunks := n\<rparr>)) xs = map chunkIndex xs"
  by (induction xs) auto

lemma large_contents:
  assumes "length (content fc) > maxSize"
  shows "map chunk_content (chunkContentWith maxSize fc)
         = pieces (chunkLoop maxSize (filePath fc) (split_nl (content fc)) ([], [], 0))"
  by (simp add: chunkContentWith_large [OF assms] map_content_total pushLast_pieces)

lemma large_totals:
  assumes "length (content fc) > maxSize"
  shows "\<forall>c \<in> set (chunkContentWith maxSize fc). totalChunks c = length (chunkContentWith maxSize fc)"
  by (simp add: chunkContentWith_large [OF assms])

lemma large_indices:
  assumes "length (content fc) > maxSize"
  shows "map chunkIndex (chunkContentWith maxSize fc) = [0..<length (chunkContentWith maxSize fc)]"
proof -
  have "indexed ([], [], 0)" by (simp add: indexed_def)
  then have "indexed (chunkLoop maxSize (filePath fc) (split_nl (content fc)) ([], [], 0))"
    by (rule indexed_loop)
  then show ?thesis
    by (simp add: chunkContentWith_large [OF assms] map_index_total indexed_pushLast)
qed

lemma large_lines:
  assumes "length (content fc) > maxSize"
  shows "filter (\<lambda>l. l \<noteq> []) (concat (map (\<lambda>c. split_nl (chunk_content c)) (chunkContentWith maxSize fc)))
         = filter (\<lambda>l. l \<noteq> []) (split_nl (content fc))"
proof -
  have nn: "\<forall>l \<in> set (split_nl (content fc)). nl \<notin> set l"
    using split_nl_lines by blast
  have "concat (map (\<lambda>c. split_nl (chunk_content c)) (chunkContentWith maxSize fc))
        = linesOf (map chunk_content (chunkContentWith maxSize fc))"
    by (simp add: linesOf_def o_def)
  also have "\<dots> = linesOf (pieces (chunkLoop maxSize (filePath fc) (split_nl (content fc)) ([], [], 0)))"
    by (simp only: large_contents [OF assms])
  finally show ?thesis
    using pieces_loop [OF nn, of maxSize "filePath fc" "([], [], 0)"]
    by (simp add: pieces_def linesOf_Nil)
qed

lemma blankOpens_step:
  assumes "nl \<notin> set line" and "\<not> blankOpens m (line # rest) cur"
  shows "linesOf (pieces (chunkStep m fp (chunks, cur, idx) line))
           = linesOf (pieces (chunks, cur, idx)) @ [line]
       \<and> (\<exists>chunks' idx' cur'. chunkStep m fp (chunks, cur, idx) line = (chunks', cur', idx')
             \<and> \<not> blankOpens m rest cur')"
proof (cases rule: chunkStep_cases [of cur m fp chunks idx line])
  case first
  with assms(2) have ne: "line \<noteq> []" and r: "\<not> blankOpens m rest line"
    by (simp_all add: Let_def)
  from first ne assms(1) r show ?thesis
    by (simp add: pieces_def linesOf_append linesOf_Nil linesOf_Cons split_nl_no_nl)
next
  case close
  with assms(2) have ne: "line \<noteq> []" and r: "\<not> blankOpens m rest line"
    by (auto simp: Let_def)
  from close ne assms(1) r show ?thesis
    by (simp add: pieces_def linesOf_append linesOf_Nil linesOf_Cons split_nl_no_nl)
next
  case extend
  with assms(2) have r: "\<not> blankOpens m rest (cur @ nl # line)"
    by (simp add: Let_def)
  from extend assms(1) r show ?thesis
    by (simp add: pieces_def linesOf_append linesOf_Nil linesOf_Cons split_nl_append split_nl_no_nl)
qed

lemma blankOpens_loop:
  "\<forall>l \<in> set lines. nl \<notin> set l \<Longrightarrow> \<not> blankOpens m lines cur
   \<Longrightarrow> linesOf (pieces (chunkLoop m fp lines (chunks, cur, idx)))
       = linesOf (pieces (chunks, cur, idx)) @ lines"
proof (induction lines arbitrary: chunks cur idx)
  case Nil
  then show ?case by simp
next
  case (Cons line rest)
  have a: "nl \<notin> set line" and b: "\<forall>l \<in> set rest. nl \<notin> set l"
    using Cons.prems(1) by simp_all
  from blankOpens_step [OF a Cons.prems(2), of fp chunks idx]
  obtain chunks' idx' cur' where
    eq: "linesOf (pieces (chunkStep m fp (chunks, cur, idx) line))
           = linesOf (pieces (chunks, cur, idx)) @ [line]"
    and st: "chunkStep m fp (chunks, cur, idx) line = (chunks', cur', idx')"
    and nb: "\<not> blankOpens m rest cur'"
    by blast
  from Cons.IH [OF b nb, of chunks' idx'] st eq show ?case by simp
qed

lemma no_blank_line_opens:
  "[] \<notin> set lines \<Longrightarrow> \<not> blankOpens m lines cur"
  by (induction lines arbitrary: cur) (auto simp: Let_def)

lemma large_lossless:
  assumes "length (content fc) > maxSize"
    and "\<not> blankOpens maxSize (split_nl (content fc)) []"
  shows "join_nl (map chunk_content (chunkContentWith maxSize fc)) = content fc"
proof -
  have nn: "\<forall>l \<in> set (split_nl (content fc)). nl \<notin> set l"
    using split_nl_lines by blast
  have "linesOf (pieces (chunkLoop maxSize (filePath fc) (split_nl (content fc)) ([], [], 0)))
        = split_nl (content fc)"
    using blankOpens_loop [OF nn assms(2), of "filePath fc" "[]" 0]
    by (simp add: pieces_def linesOf_Nil)
  then have "join_nl (pieces (chunkLoop maxSize (filePath fc) (split_nl (content fc)) ([], [], 0)))
        = content fc"
    by (metis join_nl_linesOf join_split_nl)
  then show ?thesis by (simp only: large_contents [OF assms(1)])
qed

lemma large_bounded:
  assumes "length (content fc) > maxSize" and "c \<in> set (chunkContentWith maxSize fc)"
  shows "length (chunk_content c) \<le> maxSize \<or> nl \<notin> set (chunk_content c)"
proof -
  have nn: "\<forall>l \<in> set (split_nl (content fc)). nl \<notin> set l"
    using split_nl_lines by blast
  have "bounded maxSize ([], [], 0)" by (simp add: bounded_def)
  then have b: "bounded maxSize (chunkLoop maxSize (filePath fc) (split_nl (content fc)) ([], [], 0))"
    using nn by (rule bounded_loop)
  from assms(2) obtain c' where
    c': "c' \<in> set (pushLast (filePath fc) (chunkLoop maxSize (filePath fc) (split_nl (content fc)) ([], [], 0)))"
    and cc: "chunk_content c = chunk_content c'"
    by (auto simp: chunkContentWith_large [OF assms(1)])
  from bounded_pushLast [OF b c'] cc show ?thesis by simp
qed

lemma large_two:
  assumes "length (content fc) > maxSize"
    and "\<not> blankOpens maxSize (split_nl (content fc)) []"
    and "nl \<in> set (content fc)"
  shows "2 \<le> length (chunkContentWith maxSize fc)"
proof (rule ccontr)
  assume "\<not> 2 \<le> length (chunkContentWith maxSize fc)"
  then consider "chunkContentWith maxSize fc = []" | c where "chunkContentWith maxSize fc = [c]"
    by (cases "chunkContentWith maxSize fc") (auto simp: Suc_le_eq)
  then show False
  proof cases
    case 1
    with large_lossless [OF assms(1,2)] assms(1) show False by simp
  next
    case 2
    with large_lossless [OF assms(1,2)] have "chunk_content c = content fc" by simp
    moreover from 2 have "c \<in> set (chunkContentWith maxSize fc)" by simp
    ultimately show False
      using large_bounded [OF assms(1), of c] assms(1,3) by auto
  qed
qed

lemma large_single_line:
  assumes "length (content fc) > maxSize" and "nl \<notin> set (content fc)"
  shows "map chunk_content (chunkContentWith maxSize fc) = [content fc]"
proof -
  have ne: "content fc \<noteq> []" using assms(1) by auto
  have "chunkLoop maxSize (filePath fc) (split_nl (content fc)) ([], [], 0) = ([], content fc, 0)"
    using chunkStep_cases [of "[]" maxSize "filePath fc" "[]" 0 "content fc"]
    by (simp add: split_nl_no_nl [OF assms(2)])
  then show ?thesis
    using ne by (simp add: large_contents [OF assms(1)] pieces_def)
qed

text \<open>
  Claim C3, as the code has it. For a document longer than the limit: every chunk carries
  the number of chunks in \<open>totalChunks\<close>; the indices are 0, 1, 2, ... in order; the
  non-empty lines of the chunks are the non-empty lines of the document, whole and in
  order; when no empty line becomes the first line of a chunk (as in every document
  without empty lines), joining the chunk contents with newlines gives the document back,
  and there are at least two chunks as soon as the document has more than one line; a
  document that is a single line is one chunk.
\<close>

theorem chunkContent_large:
  assumes "length (content fc) > maxSize"
  shows "(\<forall>c \<in> set (chunkContentWith maxSize fc).
            totalChunks c = length (chunkContentWith maxSize fc))
       \<and> map chunkIndex (chunkContentWith maxSize fc) = [0..<length (chunkContentWith maxSize fc)]
       \<and> filter (\<lambda>l. l \<noteq> [])
             (concat (map (\<lambda>c. split_nl (chunk_content c)) (chunkContentWith maxSize fc)))
           = filter (\<lambda>l. l \<noteq> []) (split_nl (content fc))
       \<and> (\<not> blankOpens maxSize (split_nl (content fc)) [] \<longrightarrow>
             join_nl (map chunk_content (chunkContentWith maxSize fc)) = content fc
             \<and> (nl \<in> set (content fc) \<longrightarrow> 2 \<le> length (chunkContentWith maxSize fc)))
       \<and> ([] \<notin> set (split_nl (content fc)) \<longrightarrow>
             \<not> blankOpens maxSize (split_nl (content fc)) [])
       \<and> (nl \<notin> set (content fc) \<longrightarrow>
             map chunk_content (chunkContentWith maxSize fc) = [content fc])"
  using large_totals [OF assms] large_indices [OF assms] large_lines [OF assms]
    large_lossless [OF assms] large_two [OF assms] large_single_line [OF assms]
    no_blank_line_opens [of "split_nl (content fc)" maxSize "[]"]
  by blast

theorem chunkContent_large_witness:
  "length (content blankLineDoc) > 6
   \<and> \<not> blankOpens 6 (split_nl (content blankLineDoc)) []
   \<and> [] \<in> set (split_nl (content blankLineDoc))
   \<and> nl \<in> set (content blankLineDoc)
   \<and> map chunkIndex (chunkContentWith 6 blankLineDoc) = [0, 1]
   \<and> map totalChunks (chunkContentWith 6 blankLineDoc) = [2, 2]
   \<and> map chunk_content (chunkContentWith 6 blankLineDoc) = [''ab'' @ nl # nl # ''cd'', ''ef'' @ [nl]]
   \<and> join_nl (map chunk_content (chunkContentWith 6 blankLineDoc)) = content blankLineDoc"
  using chunkContent_large [of 6 blankLineDoc]
  by (simp add: blankLineDoc_def chunkContentWith_def chunkStep_def pushLast_def nl_def)


text \<open>The side condition is the exact one: when an empty line opens a chunk, the join differs.\<close>

lemma split_join_nl:
  "ls \<noteq> [] \<Longrightarrow> \<forall>l \<in> set ls. nl \<notin> set l \<Longrightarrow> split_nl (join_nl ls) = ls"
proof (induction ls)
  case Nil
  then show ?case by simp
next
  case (Cons l ls)
  show ?case
  proof (cases ls)
    case Nil
    with Cons.prems show ?thesis by (simp add: split_nl_no_nl)
  next
    case (Cons l' ls')
    then have "join_nl (l # ls) = l @ nl # join_nl ls" by simp
    moreover have "split_nl (join_nl ls) = ls" using Cons.IH Cons.prems Cons by simp
    ultimately show ?thesis using Cons.prems by (simp add: split_nl_append split_nl_no_nl)
  qed
qed

lemma blank_step_length:
  assumes "nl \<notin> set line"
  shows "\<exists>chunks' cur' idx'. chunkStep m fp (chunks, cur, idx) line = (chunks', cur', idx')
          \<and> cur' = (if length (if cur \<noteq> [] then cur @ nl # line else line) > m \<and> cur \<noteq> []
                     then line else (if cur \<noteq> [] then cur @ nl # line else line))
          \<and> length (linesOf (pieces (chunks', cur', idx')))
              \<le> length (linesOf (pieces (chunks, cur, idx))) + 1
          \<and> (line = [] \<and> (cur = [] \<or> length (cur @ nl # line) > m)
               \<longrightarrow> length (linesOf (pieces (chunks', cur', idx')))
                    = length (linesOf (pieces (chunks, cur, idx))))"
proof (cases rule: chunkStep_cases [of cur m fp chunks idx line])
  case first
  with assms show ?thesis
    by (simp add: pieces_def linesOf_append linesOf_Nil linesOf_Cons split_nl_no_nl)
next
  case close
  with assms show ?thesis
    by (simp add: pieces_def linesOf_append linesOf_Nil linesOf_Cons split_nl_no_nl)
next
  case extend
  with assms show ?thesis
    by (simp add: pieces_def linesOf_append linesOf_Nil linesOf_Cons split_nl_append split_nl_no_nl)
qed

lemma loop_length:
  "\<forall>l \<in> set lines. nl \<notin> set l
   \<Longrightarrow> length (linesOf (pieces (chunkLoop m fp lines (chunks, cur, idx))))
         \<le> length (linesOf (pieces (chunks, cur, idx))) + length lines
       \<and> (blankOpens m lines cur
            \<longrightarrow> length (linesOf (pieces (chunkLoop m fp lines (chunks, cur, idx))))
                 < length (linesOf (pieces (chunks, cur, idx))) + length lines)"
proof (induction lines arbitrary: chunks cur idx)
  case Nil
  then show ?case by simp
next
  case (Cons line rest)
  have a: "nl \<notin> set line" and b: "\<forall>l \<in> set rest. nl \<notin> set l"
    using Cons.prems by simp_all
  from blank_step_length [OF a, of m fp chunks cur idx]
  obtain chunks' cur' idx' where
    st: "chunkStep m fp (chunks, cur, idx) line = (chunks', cur', idx')"
    and cur': "cur' = (if length (if cur \<noteq> [] then cur @ nl # line else line) > m \<and> cur \<noteq> []
                     then line else (if cur \<noteq> [] then cur @ nl # line else line))"
    and le: "length (linesOf (pieces (chunks', cur', idx')))
              \<le> length (linesOf (pieces (chunks, cur, idx))) + 1"
    and eq: "line = [] \<and> (cur = [] \<or> length (cur @ nl # line) > m)
               \<longrightarrow> length (linesOf (pieces (chunks', cur', idx')))
                    = length (linesOf (pieces (chunks, cur, idx)))"
    by blast
  from Cons.IH [OF b, of chunks' cur' idx'] have
    ih1: "length (linesOf (pieces (chunkLoop m fp rest (chunks', cur', idx'))))
         \<le> length (linesOf (pieces (chunks', cur', idx'))) + length rest"
    and ih2: "blankOpens m rest cur'
            \<longrightarrow> length (linesOf (pieces (chunkLoop m fp rest (chunks', cur', idx'))))
                 < length (linesOf (pieces (chunks', cur', idx'))) + length rest"
    by simp_all
  let ?L = "length (linesOf (pieces (chunks, cur, idx)))"
  let ?L' = "length (linesOf (pieces (chunks', cur', idx')))"
  let ?R = "length (linesOf (pieces (chunkLoop m fp rest (chunks', cur', idx'))))"
  have total: "chunkLoop m fp (line # rest) (chunks, cur, idx)
               = chunkLoop m fp rest (chunks', cur', idx')"
    using st by simp
  have bo: "blankOpens m (line # rest) cur
            = ((line = [] \<and> (cur = [] \<or> (length (if cur \<noteq> [] then cur @ nl # line else line) > m
                                          \<and> cur \<noteq> [])))
               \<or> blankOpens m rest cur')"
    unfolding cur' by (simp add: Let_def)
  have part1: "?R \<le> ?L + length (line # rest)"
    using ih1 le by simp
  have part2: "?R < ?L + length (line # rest)" if b: "blankOpens m (line # rest) cur"
  proof -
    from b bo consider
      (now) "line = []" "cur = [] \<or> length (cur @ nl # line) > m"
      | (later) "blankOpens m rest cur'"
      by (cases "cur = []") auto
    then show ?thesis
    proof cases
      case now
      with eq have "?L' = ?L" by blast
      with ih1 show ?thesis by simp
    next
      case later
      with ih2 have "?R < ?L' + length rest" by blast
      with le show ?thesis by simp
    qed
  qed
  from part1 part2 show ?case unfolding total by blast
qed

lemma blank_opening_loses:
  assumes "length (content fc) > maxSize"
    and "blankOpens maxSize (split_nl (content fc)) []"
  shows "join_nl (map chunk_content (chunkContentWith maxSize fc)) \<noteq> content fc"
proof
  assume j: "join_nl (map chunk_content (chunkContentWith maxSize fc)) = content fc"
  let ?ps = "pieces (chunkLoop maxSize (filePath fc) (split_nl (content fc)) ([], [], 0))"
  have nn: "\<forall>l \<in> set (split_nl (content fc)). nl \<notin> set l"
    using split_nl_lines by blast
  have lt: "length (linesOf ?ps) < length (split_nl (content fc))"
    using loop_length [OF nn, of maxSize "filePath fc" "[]" "[]" 0] assms(2)
    by (simp add: pieces_def linesOf_Nil)
  have jp: "join_nl (linesOf ?ps) = content fc"
    using j by (simp only: large_contents [OF assms(1)] join_nl_linesOf)
  have free: "\<forall>l \<in> set (linesOf ?ps). nl \<notin> set l"
    using split_nl_lines by (auto simp: linesOf_def)
  show False
  proof (cases "linesOf ?ps = []")
    case True
    with jp assms(1) show False by simp
  next
    case False
    from split_join_nl [OF False free] jp have "linesOf ?ps = split_nl (content fc)" by simp
    with lt show False by simp
  qed
qed

lemma a_not_nl: "nl \<notin> set (replicate n (CHR ''a''))"
  by (simp add: nl_def)

lemma longLineDoc_chunks:
  "chunkContent longLineDoc
   = [\<lparr>chunk_filePath = ''notes.md'', chunk_content = replicate 8001 (CHR ''a''),
        chunkIndex = 0, totalChunks = 1\<rparr>]"
  by (simp add: chunkContent_def chunkContentWith_def maxChunkSize_def longLineDoc_def
      split_nl_no_nl [OF a_not_nl] chunkStep_def pushLast_def)

lemma blankFirstDoc_chunks:
  "chunkContent blankFirstDoc
   = [\<lparr>chunk_filePath = ''notes.md'', chunk_content = replicate 8000 (CHR ''a''),
        chunkIndex = 0, totalChunks = 1\<rparr>]"
  by (simp add: chunkContent_def chunkContentWith_def maxChunkSize_def blankFirstDoc_def
      split_nl_no_nl [OF a_not_nl] chunkStep_def pushLast_def)

text \<open>
  Claim C3 as stated fails: a single line of 8001 characters is longer than the limit and
  gives one chunk, and a document that starts with an empty line loses that line, so the
  joined chunks differ from it.
\<close>

theorem chunkContent_large_counterexample:
  "length (content longLineDoc) > maxChunkSize
   \<and> length (chunkContent longLineDoc) = 1
   \<and> length (content blankFirstDoc) > maxChunkSize
   \<and> join_nl (map chunk_content (chunkContent blankFirstDoc)) \<noteq> content blankFirstDoc"
proof -
  have "length (replicate 8000 (CHR ''a'')) \<noteq> length (nl # replicate 8000 (CHR ''a''))"
    by simp
  then have "replicate 8000 (CHR ''a'') \<noteq> nl # replicate 8000 (CHR ''a'')"
    by metis
  then show ?thesis
    by (simp add: longLineDoc_chunks blankFirstDoc_chunks)
       (simp add: longLineDoc_def blankFirstDoc_def maxChunkSize_def)
qed

text \<open>
  Claim C9. A document no longer than the limit gives exactly one chunk: its content with
  index 0 and \<open>totalChunks = 1\<close>.
\<close>

theorem chunkContent_small:
  assumes "length (content fc) \<le> maxSize"
  shows "chunkContentWith maxSize fc
         = [\<lparr>chunk_filePath = filePath fc, chunk_content = content fc,
              chunkIndex = 0, totalChunks = 1\<rparr>]"
  using assms by (simp add: chunkContentWith_def)


theorem chunkContent_small_witness:
  "length (content threeLineDoc) \<le> maxChunkSize
   \<and> chunkContent threeLineDoc
       = [\<lparr>chunk_filePath = ''notes.md'', chunk_content = ''ab'' @ nl # ''cd'' @ nl # ''ef'',
            chunkIndex = 0, totalChunks = 1\<rparr>]"
  using chunkContent_small [of threeLineDoc maxChunkSize]
  by (simp add: threeLineDoc_def chunkContent_def maxChunkSize_def)

section \<open>The state store\<close>

text \<open>
  Claim C4. The hash depends on the title only through the trimmed, lower-cased title and
  on the path only through the resolved path: two titles that agree after trimming and
  lower-casing give the same hash for the same path and ordinal. The hash is a function of
  its inputs, so equal inputs give equal hashes.
\<close>

theorem generateTaskHash_normalised:
  assumes "toLowerCase (trim (title t1)) = toLowerCase (trim (title t2))"
    and "path_resolve p fp1 = path_resolve p fp2"
  shows "generateTaskHash p t1 fp1 i = generateTaskHash p t2 fp2 i"
  using assms by (simp add: generateTaskHash_def)

theorem generateTaskHash_normalised_witness:
  "toLowerCase (trim '' Buy Milk '') = ''buy milk''
   \<and> toLowerCase (trim ''buy milk'') = ''buy milk''
   \<and> generateTaskHash samplePlatform \<lparr>title = '' Buy Milk '', due = None, tags = None\<rparr> ''/inbox/a.md'' 3
     = generateTaskHash samplePlatform \<lparr>title = ''buy milk'', due = None, tags = None\<rparr> ''/inbox/a.md'' 3"
proof -
  have a: "toLowerCase (trim '' Buy Milk '') = ''buy milk''" by code_simp
  have b: "toLowerCase (trim ''buy milk'') = ''buy milk''" by code_simp
  have "toLowerCase (trim (title \<lparr>title = '' Buy Milk '', due = None, tags = None\<rparr>))
        = toLowerCase (trim (title \<lparr>title = ''buy milk'', due = None, tags = None\<rparr>))"
    using a b by simp
  from generateTaskHash_normalised [OF this refl] a b show ?thesis by simp
qed

subsection \<open>Pruning\<close>

lemma setAdd_foldl_distinct:
  "distinct (acc @ xs) \<Longrightarrow> foldl (\<lambda>acc x. setAdd x acc) acc xs = acc @ xs"
  by (induction xs arbitrary: acc) (auto simp: setAdd_def)

lemma setFromArray_distinct: "distinct xs \<Longrightarrow> setFromArray xs = xs"
  using setAdd_foldl_distinct [of "[]" xs] by (simp add: setFromArray_def)

lemma slice_from_neg:
  "0 < k \<Longrightarrow> k \<le> length xs \<Longrightarrow> slice_from (- int k) xs = drop (length xs - k) xs"
  by (simp add: slice_from_def Let_def nat_diff_distrib' max_def)

lemma slice_from_zero: "slice_from 0 xs = xs"
  by (simp add: slice_from_def)

lemma keepCount_le: "keepCount n \<le> n"
  by (simp add: keepCount_def)

lemma snd_saveState_tasks: "processedTasks (state (snd (saveState e w))) = processedTasks (state w)"
  by (simp add: saveState_def Let_def)

lemma cleanup_tasks:
  "processedTasks (state (snd (cleanup e maxEntries w)))
   = (if length (processedTasks (state w)) > maxEntries
      then setFromArray (slice_from (- int (keepCount maxEntries)) (processedTasks (state w)))
      else processedTasks (state w))"
  by (simp add: cleanup_def Let_def snd_saveState_tasks)

lemma cleanup_trims:
  assumes "distinct (processedTasks (state w))"
    and "length (processedTasks (state w)) > maxEntries"
    and "2 \<le> maxEntries"
  shows "processedTasks (state (snd (cleanup e maxEntries w)))
         = drop (length (processedTasks (state w)) - keepCount maxEntries) (processedTasks (state w))"
    and "length (processedTasks (state (snd (cleanup e maxEntries w)))) = keepCount maxEntries"
proof -
  have k: "0 < keepCount maxEntries" using assms(3) by (simp add: keepCount_def)
  have le: "keepCount maxEntries \<le> length (processedTasks (state w))"
    using keepCount_le [of maxEntries] assms(2) by simp
  have d: "distinct (drop (length (processedTasks (state w)) - keepCount maxEntries) (processedTasks (state w)))"
    using assms(1) by simp
  show "processedTasks (state (snd (cleanup e maxEntries w)))
         = drop (length (processedTasks (state w)) - keepCount maxEntries) (processedTasks (state w))"
    using assms(2) by (simp add: cleanup_tasks slice_from_neg [OF k le] setFromArray_distinct [OF d])
  then show "length (processedTasks (state (snd (cleanup e maxEntries w)))) = keepCount maxEntries"
    using le by simp
qed

lemma cleanup_untouched:
  "length (processedTasks (state w)) \<le> maxEntries
   \<Longrightarrow> processedTasks (state (snd (cleanup e maxEntries w))) = processedTasks (state w)"
  by (simp add: cleanup_tasks)

lemma keepCount_default: "keepCount 10000 = 8000"
  by (simp add: keepCount_def)

text \<open>
  Claim C5 at \<^verbatim>\<open>cleanup(1)\<close>: two identities are more than \<open>maxEntries = 1\<close> and
  \<open>floor(1 * 0.8) = 0\<close>, yet both are retained, since \<^verbatim>\<open>slice(-0)\<close> is the whole array.
\<close>

theorem cleanup_one_keeps_all:
  "length (processedTasks (state twoHashes)) > 1
   \<and> keepCount 1 = 0
   \<and> processedTasks (state (snd (cleanup e 1 twoHashes))) = [''h1'', ''h2'']"
  by (simp add: cleanup_tasks twoHashes_def keepCount_def slice_from_def setFromArray_def setAdd_def)

subsection \<open>Loading the ledger\<close>

text \<open>
  Claim C7. When the state file is missing or its content does not parse, \<^verbatim>\<open>loadState\<close>
  returns the empty default state: the manager built from it has no last run, no processed
  identity and no watermark.
\<close>

theorem loadState_fallback:
  assumes "file = Missing \<or> (\<exists>text. file = Contents text \<and> parse text = None)"
  shows "loadState parse file = defaultState
       \<and> getLastRun (newStateManager parse file) = None
       \<and> getProcessedTaskCount (newStateManager parse file) = 0
       \<and> lastModifiedTimes (state (newStateManager parse file)) = []"
  using assms
  by (auto simp: loadState_def newStateManager_def getLastRun_def getProcessedTaskCount_def
      defaultState_def)

theorem loadState_fallback_witness:
  "sampleParse ''{ \"lastRun\": '' = None
   \<and> loadState sampleParse (Contents ''{ \"lastRun\": '') = defaultState
   \<and> getLastRun (newStateManager sampleParse (Contents ''{ \"lastRun\": '')) = None
   \<and> getProcessedTaskCount (newStateManager sampleParse (Contents ''{ \"lastRun\": '')) = 0
   \<and> lastModifiedTimes (state (newStateManager sampleParse (Contents ''{ \"lastRun\": ''))) = []
   \<and> loadState sampleParse Missing = defaultState"
  using loadState_fallback [of "Contents ''{ \"lastRun\": ''" sampleParse]
    loadState_fallback [of Missing sampleParse]
  by (simp add: sampleParse_def)

section \<open>The sync client\<close>

lemma fetchCount_append: "fetchCount (tr @ ext) = fetchCount tr + fetchCount ext"
  by (simp add: fetchCount_def)

lemma fetchCount_fetch: "fetchCount [EFetch r] = 1"
  by (simp add: fetchCount_def isFetch_def)

lemma fetchCount_fetch_sleep: "fetchCount (tr @ [EFetch r, ESleep d]) = fetchCount tr + 1"
  by (simp add: fetchCount_def isFetch_def)


lemma fetchCount_snoc_sleep: "fetchCount (tr @ [ESleep d]) = fetchCount tr"
  by (simp add: fetchCount_def isFetch_def)

lemma callNotion_rejected:
  "net (fetchCount tr) = FetchRejected msg
   \<Longrightarrow> callNotion p net req attempt tr = (Inl msg, tr @ [EFetch req])"
  by (subst callNotion.simps) simp

lemma callNotion_ok:
  "net (fetchCount tr) = FetchResponse status body \<Longrightarrow> ok status \<Longrightarrow> JSON_parse p body = Some j
   \<Longrightarrow> callNotion p net req attempt tr = (Inr j, tr @ [EFetch req])"
  by (subst callNotion.simps) simp

lemma callNotion_ok_unparsed:
  "net (fetchCount tr) = FetchResponse status body \<Longrightarrow> ok status \<Longrightarrow> JSON_parse p body = None
   \<Longrightarrow> callNotion p net req attempt tr = (Inl ''Unexpected token in JSON'', tr @ [EFetch req])"
  by (subst callNotion.simps) simp

lemma callNotion_429_retry:
  "net (fetchCount tr) = FetchResponse 429 body \<Longrightarrow> attempt \<le> 3
   \<Longrightarrow> callNotion p net req attempt tr
       = callNotion p net req (attempt + 1) (tr @ [EFetch req, ESleep (2 ^ attempt * 1000)])"
  by (subst callNotion.simps) (simp add: ok_def)

lemma callNotion_429_last:
  "net (fetchCount tr) = FetchResponse 429 body \<Longrightarrow> attempt > 3
   \<Longrightarrow> callNotion p net req attempt tr
       = (Inl (''Notion API error: '' @ errorMessageOf p 429 body), tr @ [EFetch req])"
  by (subst callNotion.simps) (simp add: ok_def)

lemma callNotion_5xx_retry:
  "net (fetchCount tr) = FetchResponse status body \<Longrightarrow> status \<ge> 500 \<Longrightarrow> attempt \<le> 2
   \<Longrightarrow> callNotion p net req attempt tr
       = callNotion p net req (attempt + 1) (tr @ [EFetch req, ESleep (attempt * 2000)])"
  by (subst callNotion.simps) (simp add: ok_def)

lemma callNotion_5xx_last:
  "net (fetchCount tr) = FetchResponse status body \<Longrightarrow> status \<ge> 500 \<Longrightarrow> attempt > 2
   \<Longrightarrow> callNotion p net req attempt tr
       = (Inl (''Notion API error: '' @ errorMessageOf p status body), tr @ [EFetch req])"
  by (subst callNotion.simps) (simp add: ok_def)

lemma callNotion_other:
  "net (fetchCount tr) = FetchResponse status body \<Longrightarrow> \<not> ok status \<Longrightarrow> status \<noteq> 429
   \<Longrightarrow> status < 500
   \<Longrightarrow> callNotion p net req attempt tr
       = (Inl (''Notion API error: '' @ errorMessageOf p status body), tr @ [EFetch req])"
  by (subst callNotion.simps) simp

lemma callNotion_shape:
  "callNotion p net req attempt tr = (r, tr') \<Longrightarrow> \<exists>ext. tr' = tr @ ext \<and> callShape req attempt ext"
proof (induction p net req attempt tr arbitrary: r tr' rule: callNotion.induct)
  case (1 p net req attempt tr)
  have base: "callShape req attempt [EFetch req]"
    unfolding callShape_def by (rule exI [of _ "[]"]) simp
  have step: "\<And>d ext. attempt \<le> 3 \<Longrightarrow> callShape req (attempt + 1) ext
               \<Longrightarrow> callShape req attempt ([EFetch req, ESleep d] @ ext)"
  proof -
    fix d ext
    assume a: "attempt \<le> 3" and "callShape req (attempt + 1) ext"
    then obtain ds where ds: "ext = concat (map (\<lambda>d. [EFetch req, ESleep d]) ds) @ [EFetch req]"
      "length ds \<le> 4 - (attempt + 1)"
      unfolding callShape_def by blast
    show "callShape req attempt ([EFetch req, ESleep d] @ ext)"
      unfolding callShape_def using ds a by (intro exI [of _ "d # ds"]) simp
  qed
  show ?case
  proof (cases "net (fetchCount tr)")
    case (FetchRejected msg)
    with "1.prems" base show ?thesis by (auto simp: callNotion_rejected)
  next
    case (FetchResponse status body)
    show ?thesis
    proof (cases "ok status")
      case True
      with "1.prems" FetchResponse base show ?thesis
        by (cases "JSON_parse p body") (auto simp: callNotion_ok callNotion_ok_unparsed)
    next
      case notok: False
      consider (a) "status = 429" "attempt \<le> 3"
        | (b) "\<not> (status = 429 \<and> attempt \<le> 3)" "status \<ge> 500" "attempt \<le> 2"
        | (c) "\<not> (status = 429 \<and> attempt \<le> 3)" "\<not> (status \<ge> 500 \<and> attempt \<le> 2)"
        by blast
      then show ?thesis
      proof cases
        case a
        from "1.prems" FetchResponse a
        have "callNotion p net req (attempt + 1) ((tr @ [EFetch req]) @ [ESleep (2 ^ attempt * 1000)]) = (r, tr')"
          by (simp add: callNotion_429_retry)
        from "1.IH"(1) [OF refl FetchResponse notok _ this] a
        obtain ext where "tr' = ((tr @ [EFetch req]) @ [ESleep (2 ^ attempt * 1000)]) @ ext"
          "callShape req (attempt + 1) ext" by auto
        with step [of ext "2 ^ attempt * 1000"] a show ?thesis by auto
      next
        case b
        from "1.prems" FetchResponse b
        have "callNotion p net req (attempt + 1) ((tr @ [EFetch req]) @ [ESleep (attempt * 2000)]) = (r, tr')"
          by (simp add: callNotion_5xx_retry)
        from "1.IH"(2) [OF refl FetchResponse notok b(1) _ this] b
        obtain ext where "tr' = ((tr @ [EFetch req]) @ [ESleep (attempt * 2000)]) @ ext"
          "callShape req (attempt + 1) ext" by auto
        with step [of ext "attempt * 2000"] b show ?thesis by auto
      next
        case c
        from "1.prems" FetchResponse notok c base show ?thesis
          by (subst (asm) callNotion.simps) auto
      qed
    qed
  qed
qed


lemma callNotion_first_try:
  assumes "callNotion p net req 1 tr = (r, tr')"
  shows "\<exists>ds. tr' = tr @ concat (map (\<lambda>d. [EFetch req, ESleep d]) ds) @ [EFetch req]
              \<and> length ds \<le> 3"
  using callNotion_shape [OF assms] unfolding callShape_def by auto

text \<open>
  Claim C6. A 429 answer at attempt 1, 2 or 3 is followed by a delay of \<open>2 ^ attempt\<close>
  seconds and the next attempt, and at a later attempt by the error; an answer of 500 or
  above at attempt 1 or 2 is followed by a delay of \<open>attempt * 2\<close> seconds and the next
  attempt, and at a later attempt by the error. A call makes one request per attempt and at
  most three retries: the store always answering 429 gives four requests with delays of 2,
  4 and 8 seconds, always answering 5xx gives three requests with delays of 2 and 4
  seconds, and a 429 followed by a success gives the success after one retry and two
  requests.
\<close>

theorem callNotion_retry_policy:
  "(net (fetchCount tr) = FetchResponse 429 body \<and> attempt \<le> 3 \<longrightarrow>
      callNotion p net req attempt tr
      = callNotion p net req (attempt + 1) (tr @ [EFetch req, ESleep (2 ^ attempt * 1000)]))
   \<and> (net (fetchCount tr) = FetchResponse 429 body \<and> 3 < attempt \<longrightarrow>
      callNotion p net req attempt tr
      = (Inl (''Notion API error: '' @ errorMessageOf p 429 body), tr @ [EFetch req]))
   \<and> (net (fetchCount tr) = FetchResponse status body \<and> 500 \<le> status \<and> attempt \<le> 2 \<longrightarrow>
      callNotion p net req attempt tr
      = callNotion p net req (attempt + 1) (tr @ [EFetch req, ESleep (attempt * 2000)]))
   \<and> (net (fetchCount tr) = FetchResponse status body \<and> 500 \<le> status \<and> 2 < attempt \<longrightarrow>
      callNotion p net req attempt tr
      = (Inl (''Notion API error: '' @ errorMessageOf p status body), tr @ [EFetch req]))
   \<and> (\<forall>r tr'. callNotion p net req 1 tr = (r, tr') \<longrightarrow>
        (\<exists>ds. tr' = tr @ concat (map (\<lambda>d. [EFetch req, ESleep d]) ds) @ [EFetch req]
              \<and> length ds \<le> 3))
   \<and> ((\<forall>k. net k = FetchResponse 429 body) \<longrightarrow>
        callNotion p net req 1 tr
        = (Inl (''Notion API error: '' @ errorMessageOf p 429 body),
           tr @ [EFetch req, ESleep 2000, EFetch req, ESleep 4000, EFetch req, ESleep 8000,
                 EFetch req]))
   \<and> ((\<forall>k. net k = FetchResponse status body) \<and> 500 \<le> status \<longrightarrow>
        callNotion p net req 1 tr
        = (Inl (''Notion API error: '' @ errorMessageOf p status body),
           tr @ [EFetch req, ESleep 2000, EFetch req, ESleep 4000, EFetch req]))
   \<and> (net (fetchCount tr) = FetchResponse 429 body
        \<and> net (fetchCount tr + 1) = FetchResponse status' body' \<and> ok status'
        \<and> JSON_parse p body' = Some j \<longrightarrow>
        callNotion p net req 1 tr = (Inr j, tr @ [EFetch req, ESleep 2000, EFetch req]))"
proof (intro conjI impI allI)
  assume "net (fetchCount tr) = FetchResponse 429 body \<and> attempt \<le> 3"
  then show "callNotion p net req attempt tr
      = callNotion p net req (attempt + 1) (tr @ [EFetch req, ESleep (2 ^ attempt * 1000)])"
    by (simp add: callNotion_429_retry)
next
  assume "net (fetchCount tr) = FetchResponse 429 body \<and> 3 < attempt"
  then show "callNotion p net req attempt tr
      = (Inl (''Notion API error: '' @ errorMessageOf p 429 body), tr @ [EFetch req])"
    by (simp add: callNotion_429_last)
next
  assume "net (fetchCount tr) = FetchResponse status body \<and> 500 \<le> status \<and> attempt \<le> 2"
  then show "callNotion p net req attempt tr
      = callNotion p net req (attempt + 1) (tr @ [EFetch req, ESleep (attempt * 2000)])"
    by (simp add: callNotion_5xx_retry)
next
  assume "net (fetchCount tr) = FetchResponse status body \<and> 500 \<le> status \<and> 2 < attempt"
  then show "callNotion p net req attempt tr
      = (Inl (''Notion API error: '' @ errorMessageOf p status body), tr @ [EFetch req])"
    by (simp add: callNotion_5xx_last)
next
  fix r tr'
  assume "callNotion p net req 1 tr = (r, tr')"
  then show "\<exists>ds. tr' = tr @ concat (map (\<lambda>d. [EFetch req, ESleep d]) ds) @ [EFetch req]
              \<and> length ds \<le> 3"
    by (rule callNotion_first_try)
next
  assume a: "\<forall>k. net k = FetchResponse 429 body"
  have "callNotion p net req 1 tr = callNotion p net req 2 (tr @ [EFetch req, ESleep 2000])"
    using callNotion_429_retry [of net tr body 1 p req] a by (simp add: numeral_2_eq_2)
  also have "\<dots> = callNotion p net req 3 ((tr @ [EFetch req, ESleep 2000]) @ [EFetch req, ESleep 4000])"
    using callNotion_429_retry [of net "tr @ [EFetch req, ESleep 2000]" body 2 p req] a by simp
  also have "\<dots> = callNotion p net req 4
      (((tr @ [EFetch req, ESleep 2000]) @ [EFetch req, ESleep 4000]) @ [EFetch req, ESleep 8000])"
    using callNotion_429_retry [of net "(tr @ [EFetch req, ESleep 2000]) @ [EFetch req, ESleep 4000]" body 3 p req] a
    by simp
  also have "\<dots> = (Inl (''Notion API error: '' @ errorMessageOf p 429 body),
      (((tr @ [EFetch req, ESleep 2000]) @ [EFetch req, ESleep 4000]) @ [EFetch req, ESleep 8000])
        @ [EFetch req])"
    using a by (intro callNotion_429_last) simp_all
  finally show "callNotion p net req 1 tr
        = (Inl (''Notion API error: '' @ errorMessageOf p 429 body),
           tr @ [EFetch req, ESleep 2000, EFetch req, ESleep 4000, EFetch req, ESleep 8000,
                 EFetch req])"
    by simp
next
  assume a: "(\<forall>k. net k = FetchResponse status body) \<and> 500 \<le> status"
  have "callNotion p net req 1 tr = callNotion p net req 2 (tr @ [EFetch req, ESleep 2000])"
    using callNotion_5xx_retry [of net tr status body 1 p req] a by (simp add: numeral_2_eq_2)
  also have "\<dots> = callNotion p net req 3 ((tr @ [EFetch req, ESleep 2000]) @ [EFetch req, ESleep 4000])"
    using callNotion_5xx_retry [of net "tr @ [EFetch req, ESleep 2000]" status body 2 p req] a by simp
  also have "\<dots> = (Inl (''Notion API error: '' @ errorMessageOf p status body),
      ((tr @ [EFetch req, ESleep 2000]) @ [EFetch req, ESleep 4000]) @ [EFetch req])"
    using a by (intro callNotion_5xx_last) simp_all
  finally show "callNotion p net req 1 tr
        = (Inl (''Notion API error: '' @ errorMessageOf p status body),
           tr @ [EFetch req, ESleep 2000, EFetch req, ESleep 4000, EFetch req])"
    by simp
next
  assume a: "net (fetchCount tr) = FetchResponse 429 body
        \<and> net (fetchCount tr + 1) = FetchResponse status' body' \<and> ok status'
        \<and> JSON_parse p body' = Some j"
  have "callNotion p net req 1 tr = callNotion p net req 2 (tr @ [EFetch req, ESleep 2000])"
    using callNotion_429_retry [of net tr body 1 p req] a by (simp add: numeral_2_eq_2)
  also have "\<dots> = (Inr j, (tr @ [EFetch req, ESleep 2000]) @ [EFetch req])"
    using a by (intro callNotion_ok [of _ _ status' body']) (simp_all add: fetchCount_fetch_sleep)
  finally show "callNotion p net req 1 tr = (Inr j, tr @ [EFetch req, ESleep 2000, EFetch req])"
    by simp
qed


theorem callNotion_retry_policy_witness:
  "callNotion samplePlatform rateLimitedOnce (createRequest ''secret'' ''db1'' sampleTask) 1 []
     = (Inr (JObj [(''id'', JStr ''p1''), (''url'', JStr ''u1'')]),
        [EFetch (createRequest ''secret'' ''db1'' sampleTask), ESleep 2000,
         EFetch (createRequest ''secret'' ''db1'' sampleTask)])
   \<and> snd (callNotion samplePlatform alwaysRateLimited (createRequest ''secret'' ''db1'' sampleTask) 1 [])
     = [EFetch (createRequest ''secret'' ''db1'' sampleTask), ESleep 2000,
        EFetch (createRequest ''secret'' ''db1'' sampleTask), ESleep 4000,
        EFetch (createRequest ''secret'' ''db1'' sampleTask), ESleep 8000,
        EFetch (createRequest ''secret'' ''db1'' sampleTask)]
   \<and> snd (callNotion samplePlatform alwaysUnavailable (createRequest ''secret'' ''db1'' sampleTask) 1 [])
     = [EFetch (createRequest ''secret'' ''db1'' sampleTask), ESleep 2000,
        EFetch (createRequest ''secret'' ''db1'' sampleTask), ESleep 4000,
        EFetch (createRequest ''secret'' ''db1'' sampleTask)]"
  using
    callNotion_retry_policy [where net = rateLimitedOnce and tr = "[]" and p = samplePlatform
      and req = "createRequest ''secret'' ''db1'' sampleTask"
      and body = "''{\"message\":\"Rate limited\"}''" and status' = 200
      and body' = "''{\"id\":\"p1\",\"url\":\"u1\"}''"
      and j = "JObj [(''id'', JStr ''p1''), (''url'', JStr ''u1'')]"]
    callNotion_retry_policy [where net = alwaysRateLimited and tr = "[]" and p = samplePlatform
      and req = "createRequest ''secret'' ''db1'' sampleTask"
      and body = "''{\"message\":\"Rate limited\"}''"]
    callNotion_retry_policy [where net = alwaysUnavailable and tr = "[]" and p = samplePlatform
      and req = "createRequest ''secret'' ''db1'' sampleTask"
      and body = "[]" and status = 503]
  by (simp add: rateLimitedOnce_def alwaysRateLimited_def alwaysUnavailable_def fetchCount_def
      ok_def samplePlatform_def sampleParse_def)

subsection \<open>Records created\<close>

lemma createdFrom_append:
  "createdFrom net k (tr @ ext) = createdFrom net k tr + createdFrom net (k + fetchCount tr) ext"
proof (induction tr arbitrary: k)
  case Nil
  then show ?case by (simp add: fetchCount_def)
next
  case (Cons ev tr)
  then show ?case by (cases ev) (simp_all add: fetchCount_def isFetch_def)
qed

lemma createdCount_fetch:
  "createdCount net (tr @ [EFetch r])
   = createdCount net tr + (if isCreate r \<and> answeredOk net (fetchCount tr) then 1 else 0)"
  by (simp add: createdCount_def createdFrom_append)

lemma createdCount_sleep: "createdCount net (tr @ [ESleep d]) = createdCount net tr"
  by (simp add: createdCount_def createdFrom_append)

lemma createdCount_call:
  "callNotion p net req attempt tr = (r, tr') \<Longrightarrow>
     (\<not> isCreate req \<longrightarrow> createdCount net tr' = createdCount net tr)
   \<and> (isCreate req \<longrightarrow> (\<exists>j. r = Inr j) \<longrightarrow> createdCount net tr' = createdCount net tr + 1)"
proof (induction p net req attempt tr arbitrary: r tr' rule: callNotion.induct)
  case (1 p net req attempt tr)
  show ?case
  proof (cases "net (fetchCount tr)")
    case (FetchRejected msg)
    with "1.prems" show ?thesis
      by (auto simp: callNotion_rejected createdCount_fetch answeredOk_def)
  next
    case (FetchResponse status body)
    show ?thesis
    proof (cases "ok status")
      case True
      with "1.prems" FetchResponse show ?thesis
        by (cases "JSON_parse p body")
          (auto simp: callNotion_ok callNotion_ok_unparsed createdCount_fetch answeredOk_def)
    next
      case notok: False
      have nocreate: "createdCount net (tr @ [EFetch req]) = createdCount net tr"
        using FetchResponse notok by (simp add: createdCount_fetch answeredOk_def)
      consider (a) "status = 429" "attempt \<le> 3"
        | (b) "\<not> (status = 429 \<and> attempt \<le> 3)" "status \<ge> 500" "attempt \<le> 2"
        | (c) "\<not> (status = 429 \<and> attempt \<le> 3)" "\<not> (status \<ge> 500 \<and> attempt \<le> 2)"
        by blast
      then show ?thesis
      proof cases
        case a
        from "1.prems" FetchResponse a
        have "callNotion p net req (attempt + 1) ((tr @ [EFetch req]) @ [ESleep (2 ^ attempt * 1000)]) = (r, tr')"
          by (simp add: callNotion_429_retry)
        from "1.IH"(1) [OF refl FetchResponse notok _ this] a
        have ih: "(\<not> isCreate req \<longrightarrow> createdCount net tr'
                    = createdCount net ((tr @ [EFetch req]) @ [ESleep (2 ^ attempt * 1000)]))
                \<and> (isCreate req \<longrightarrow> (\<exists>j. r = Inr j) \<longrightarrow> createdCount net tr'
                    = createdCount net ((tr @ [EFetch req]) @ [ESleep (2 ^ attempt * 1000)]) + 1)"
          by blast
        have eq: "createdCount net ((tr @ [EFetch req]) @ [ESleep (2 ^ attempt * 1000)])
                  = createdCount net tr"
          using nocreate by (simp only: createdCount_sleep)
        from ih show ?thesis unfolding eq .
      next
        case b
        from "1.prems" FetchResponse b
        have "callNotion p net req (attempt + 1) ((tr @ [EFetch req]) @ [ESleep (attempt * 2000)]) = (r, tr')"
          by (simp add: callNotion_5xx_retry)
        from "1.IH"(2) [OF refl FetchResponse notok b(1) _ this] b
        have ih: "(\<not> isCreate req \<longrightarrow> createdCount net tr'
                    = createdCount net ((tr @ [EFetch req]) @ [ESleep (attempt * 2000)]))
                \<and> (isCreate req \<longrightarrow> (\<exists>j. r = Inr j) \<longrightarrow> createdCount net tr'
                    = createdCount net ((tr @ [EFetch req]) @ [ESleep (attempt * 2000)]) + 1)"
          by blast
        have eq: "createdCount net ((tr @ [EFetch req]) @ [ESleep (attempt * 2000)])
                  = createdCount net tr"
          using nocreate by (simp only: createdCount_sleep)
        from ih show ?thesis unfolding eq .
      next
        case c
        from "1.prems" FetchResponse notok c nocreate show ?thesis
          by (subst (asm) callNotion.simps) auto
      qed
    qed
  qed
qed

lemma query_not_create: "\<not> isCreate (queryRequest token db h)"
  by (simp add: isCreate_def queryRequest_def mkRequest_def)

lemma create_is_create: "isCreate (createRequest token db task)"
  by (simp add: isCreate_def createRequest_def mkRequest_def)

lemma taskExists_call:
  "taskExists p net token db h tr = (b, tr')
   \<Longrightarrow> \<exists>r. callNotion p net (queryRequest token db h) 1 tr = (r, tr')"
  by (auto simp: taskExists_def split: prod.splits sum.splits json.splits)

lemma taskExists_created:
  "taskExists p net token db h tr = (b, tr') \<Longrightarrow> createdCount net tr' = createdCount net tr"
  using taskExists_call createdCount_call query_not_create by blast

lemma fetches_append: "fetches (tr @ ext) = fetches tr @ fetches ext"
  by (simp add: fetches_def)

lemma fetches_retries:
  "fetches (concat (map (\<lambda>d. [EFetch req, ESleep d]) ds) @ [EFetch req])
   = replicate (length ds + 1) req"
  by (induction ds) (simp_all add: fetches_def)

lemma taskExists_requests:
  assumes "taskExists p net token db h tr = (b, tr')"
  shows "take (length tr) tr' = tr
       \<and> set (fetches (drop (length tr) tr')) = {queryRequest token db h}"
proof -
  from taskExists_call [OF assms] obtain r where
    "callNotion p net (queryRequest token db h) 1 tr = (r, tr')" by blast
  from callNotion_first_try [OF this] obtain ds where
    "tr' = tr @ concat (map (\<lambda>d. [EFetch (queryRequest token db h), ESleep d]) ds)
           @ [EFetch (queryRequest token db h)]" by blast
  then show ?thesis by (auto simp: fetches_retries)
qed


lemma createTask_absent_snd:
  "taskExists p net token db (hash task) tr = (False, trq)
   \<Longrightarrow> snd (createTask p net token db task tr)
       = snd (callNotion p net (createRequest token db task) 1 trq)"
  by (simp add: createTask_def split: prod.splits sum.splits json.splits)

lemma createTask_absent_success:
  "taskExists p net token db (hash task) tr = (False, trq)
   \<Longrightarrow> success (fst (createTask p net token db task tr))
   \<Longrightarrow> \<exists>j. fst (callNotion p net (createRequest token db task) 1 trq) = Inr j"
  by (simp add: createTask_def failed_def split: prod.splits sum.splits json.splits)





text \<open>
  Claim C10. When the existence query fails, \<^verbatim>\<open>taskExists\<close> answers \<open>False\<close> and throws
  nothing; \<^verbatim>\<open>createTask\<close> then sends the create request next, and when the store answers
  it with a page the call reports success and a record has been created, whether or not
  one with this hash was there.
\<close>

theorem createTask_unverified_check:
  assumes "callNotion p net (queryRequest token db (hash task)) 1 tr = (Inl err, tr1)"
  shows "taskExists p net token db (hash task) tr = (False, tr1)
       \<and> (\<exists>r rest. createTask p net token db task tr
                     = (r, tr1 @ EFetch (createRequest token db task) # rest))
       \<and> (\<forall>response tr2.
             callNotion p net (createRequest token db task) 1 tr1 = (Inr response, tr2)
             \<and> response \<noteq> JNull \<longrightarrow>
             createTask p net token db task tr
               = (\<lparr>success = True, pageId = getProp response ''id'',
                   pageUrl = getProp response ''url'', error = None\<rparr>, tr2)
             \<and> createdCount net tr2 = createdCount net tr + 1)"
proof -
  have ex: "taskExists p net token db (hash task) tr = (False, tr1)"
    using assms by (simp add: taskExists_def)
  obtain res tr2 where call: "callNotion p net (createRequest token db task) 1 tr1 = (res, tr2)"
    by (cases "callNotion p net (createRequest token db task) 1 tr1") auto
  from callNotion_first_try [OF call] obtain ds where
    tr2: "tr2 = tr1 @ concat (map (\<lambda>d. [EFetch (createRequest token db task), ESleep d]) ds)
                @ [EFetch (createRequest token db task)]" by blast
  have "\<exists>rest. tr2 = tr1 @ EFetch (createRequest token db task) # rest"
    using tr2 by (cases ds) auto
  moreover have "\<exists>r. createTask p net token db task tr = (r, tr2)"
    using ex call by (auto simp: createTask_def split: sum.splits json.splits)
  ultimately have second: "\<exists>r rest. createTask p net token db task tr
                     = (r, tr1 @ EFetch (createRequest token db task) # rest)"
    by blast
  have cnt: "createdCount net tr1 = createdCount net tr"
    using taskExists_created [OF ex] .
  have third: "\<forall>response tr2.
             callNotion p net (createRequest token db task) 1 tr1 = (Inr response, tr2)
             \<and> response \<noteq> JNull \<longrightarrow>
             createTask p net token db task tr
               = (\<lparr>success = True, pageId = getProp response ''id'',
                   pageUrl = getProp response ''url'', error = None\<rparr>, tr2)
             \<and> createdCount net tr2 = createdCount net tr + 1"
  proof (intro allI impI)
    fix response tr2
    assume a: "callNotion p net (createRequest token db task) 1 tr1 = (Inr response, tr2)
               \<and> response \<noteq> JNull"
    then have "createTask p net token db task tr
               = (\<lparr>success = True, pageId = getProp response ''id'',
                   pageUrl = getProp response ''url'', error = None\<rparr>, tr2)"
      using ex by (cases response) (simp_all add: createTask_def)
    moreover have "createdCount net tr2 = createdCount net tr1 + 1"
      using createdCount_call [of p net "createRequest token db task" 1 tr1 "Inr response" tr2]
        a create_is_create by blast
    ultimately show "createTask p net token db task tr
               = (\<lparr>success = True, pageId = getProp response ''id'',
                   pageUrl = getProp response ''url'', error = None\<rparr>, tr2)
             \<and> createdCount net tr2 = createdCount net tr + 1"
      using cnt by simp
  qed
  from ex second third show ?thesis by blast
qed

theorem createTask_unverified_check_witness:
  "callNotion samplePlatform checkFails (queryRequest ''secret'' ''db1'' (hash sampleTask)) 1 []
     = (Inl (''Notion API error: HTTP 400''), [EFetch (queryRequest ''secret'' ''db1'' (hash sampleTask))])
   \<and> taskExists samplePlatform checkFails ''secret'' ''db1'' (hash sampleTask) []
     = (False, [EFetch (queryRequest ''secret'' ''db1'' (hash sampleTask))])
   \<and> createTask samplePlatform checkFails ''secret'' ''db1'' sampleTask []
     = (\<lparr>success = True, pageId = Some (JStr ''p1''), pageUrl = Some (JStr ''u1''), error = None\<rparr>,
        [EFetch (queryRequest ''secret'' ''db1'' (hash sampleTask)),
         EFetch (createRequest ''secret'' ''db1'' sampleTask)])
   \<and> createdCount checkFails
        [EFetch (queryRequest ''secret'' ''db1'' (hash sampleTask)),
         EFetch (createRequest ''secret'' ''db1'' sampleTask)] = 1"
proof -
  let ?q = "queryRequest ''secret'' ''db1'' (hash sampleTask)"
  let ?c = "createRequest ''secret'' ''db1'' sampleTask"
  have s400: "showNat 400 = ''400''" by code_simp
  have q1: "callNotion samplePlatform checkFails ?q 1 [] = (Inl (''Notion API error: HTTP 400''), [EFetch ?q])"
    by (subst callNotion.simps)
      (simp add: checkFails_def fetchCount_def ok_def samplePlatform_def sampleParse_def
        errorMessageOf_def getProp_def s400)
  have c1: "callNotion samplePlatform checkFails ?c 1 [EFetch ?q]
            = (Inr (JObj [(''id'', JStr ''p1''), (''url'', JStr ''u1'')]), [EFetch ?q, EFetch ?c])"
    by (subst callNotion.simps)
      (simp add: checkFails_def fetchCount_def isFetch_def ok_def samplePlatform_def sampleParse_def)
  from createTask_unverified_check [OF q1] c1 q1 show ?thesis
    by (simp add: getProp_def createdCount_def)
qed

section \<open>The orchestrator\<close>

subsection \<open>Syncing and marking\<close>






lemma markAll_ledger: "ledger (markAll hs w) = ledger w"
  by (induction hs arbitrary: w) (simp_all add: markAll_def markTaskProcessed_def)



lemma markAll_rest:
  "lastRun (state (markAll hs w)) = lastRun (state w)
   \<and> lastModifiedTimes (state (markAll hs w)) = lastModifiedTimes (state w)"
  by (induction hs arbitrary: w) (simp_all add: markAll_def markTaskProcessed_def)




subsection \<open>Paths of chunks\<close>

lemma pathsOk_step: "pathsOk fp st \<Longrightarrow> pathsOk fp (chunkStep m fp st line)"
proof -
  assume a: "pathsOk fp st"
  obtain chunks cur idx where st: "st = (chunks, cur, idx)" by (cases st) auto
  show ?thesis
    by (cases rule: chunkStep_cases [of cur m fp chunks idx line])
      (use a in \<open>simp_all add: st pathsOk_def\<close>)
qed

lemma pathsOk_loop: "pathsOk fp st \<Longrightarrow> pathsOk fp (chunkLoop m fp lines st)"
  by (induction lines arbitrary: st) (auto simp: pathsOk_step)

lemma pathsOk_pushLast: "pathsOk fp st \<Longrightarrow> c \<in> set (pushLast fp st) \<Longrightarrow> chunk_filePath c = fp"
  by (cases st) (auto simp: pathsOk_def pushLast_def split: if_splits)

lemma chunkContent_path:
  assumes "c \<in> set (chunkContentWith m fc)"
  shows "chunk_filePath c = filePath fc"
proof (cases "length (content fc) \<le> m")
  case True
  with assms show ?thesis by (simp add: chunkContentWith_def)
next
  case False
  have "pathsOk (filePath fc) ([], [], 0)" by (simp add: pathsOk_def)
  then have ok: "pathsOk (filePath fc) (chunkLoop m (filePath fc) (split_nl (content fc)) ([], [], 0))"
    by (rule pathsOk_loop)
  from assms False obtain c' where
    "c' \<in> set (pushLast (filePath fc) (chunkLoop m (filePath fc) (split_nl (content fc)) ([], [], 0)))"
    "chunk_filePath c = chunk_filePath c'"
    by (auto simp: chunkContentWith_def Let_def)
  with pathsOk_pushLast [OF ok] show ?thesis by simp
qed

subsection \<open>Ingestion\<close>

lemma readFile1_member:
  assumes "fc \<in> set (readFile1 e st fp)"
  shows "filePath fc = fp \<and> isFileModified e st fp \<and> (\<exists>d m. fsStat e fp = Some (d, m))"
proof (cases "fsStat e fp")
  case None
  with assms show ?thesis by (simp add: readFile1_def)
next
  case (Some dm)
  obtain d m where dm: "dm = (d, m)" by (cases dm) auto
  show ?thesis
  proof (cases "isFileModified e st fp")
    case False
    with assms Some dm show ?thesis by (simp add: readFile1_def)
  next
    case True
    with assms Some dm show ?thesis
      by (cases "fsReadFile e fp") (simp_all add: readFile1_def)
  qed
qed

lemma readFiles_member:
  assumes "fc \<in> set (readFiles e st fps)"
  shows "isFileModified e st (filePath fc) \<and> (\<exists>d m. fsStat e (filePath fc) = Some (d, m))"
proof -
  from assms obtain fp where "fc \<in> set (readFile1 e st fp)"
    by (auto simp: readFiles_def)
  from readFile1_member [OF this] show ?thesis by auto
qed

lemma map_of_objSet: "map_of (objSet k v kvs) k' = (if k' = k then Some v else map_of kvs k')"
  by (induction kvs) auto

lemma update_ledger: "ledger (updateFileModifiedTime e fp w) = ledger w"
  by (simp add: updateFileModifiedTime_def split: option.splits prod.splits)

lemma update_events:
  "events (updateFileModifiedTime e fp w)
   = events w @ (case fsStat e fp of None \<Rightarrow> [] | Some (isDir, m) \<Rightarrow> [WatermarkAdvanced fp m])"
  by (simp add: updateFileModifiedTime_def split: option.splits prod.splits)

lemma update_times:
  "map_of (lastModifiedTimes (state (updateFileModifiedTime e fp w))) fp'
   = (case fsStat e fp of
        None \<Rightarrow> map_of (lastModifiedTimes (state w)) fp'
      | Some (isDir, m) \<Rightarrow> if fp' = fp then Some m else map_of (lastModifiedTimes (state w)) fp')"
  by (simp add: updateFileModifiedTime_def map_of_objSet split: option.splits prod.splits)

lemma ingestLoop_ledger: "ledger (snd (ingestLoop e fcs acc)) = ledger (snd acc)"
  by (induction fcs arbitrary: acc) (simp_all add: update_ledger)

lemma ingestLoop_events:
  "events (snd (ingestLoop e fcs acc)) = events (snd acc) @ watermarkEvents e fcs"
  by (induction fcs arbitrary: acc) (simp_all add: update_events watermarkEvents_def)

lemma ingestLoop_chunks:
  "fst (ingestLoop e fcs acc) = fst acc @ concat (map chunkContent fcs)"
  by (induction fcs arbitrary: acc) simp_all

lemma ingestLoop_times:
  "map_of (lastModifiedTimes (state (snd (ingestLoop e fcs acc)))) fp
   = (if fp \<in> filePath ` set fcs \<and> fsStat e fp \<noteq> None
      then map_option snd (fsStat e fp)
      else map_of (lastModifiedTimes (state (snd acc))) fp)"
proof (induction fcs arbitrary: acc)
  case Nil
  then show ?case by simp
next
  case (Cons fc fcs)
  show ?case
    by (simp add: Cons.IH update_times split: option.splits prod.splits) auto
qed

lemma watermarkEvents_all: "\<forall>ev \<in> set (watermarkEvents e fcs). isWatermark ev"
  by (auto simp: watermarkEvents_def isWatermark_def split: option.splits)

lemma watermarkEvents_member:
  "fc \<in> set fcs \<Longrightarrow> fsStat e (filePath fc) = Some (d, m)
   \<Longrightarrow> WatermarkAdvanced (filePath fc) m \<in> set (watermarkEvents e fcs)"
  by (force simp: watermarkEvents_def)

lemma ingestFiles_result:
  assumes "ingestFiles e dir w = (Inr chunks, w1)" and "chunks \<noteq> []"
  shows "\<exists>fps. scanDirectory e dir = Inr fps
           \<and> chunks = concat (map chunkContent (readFiles e (state w) fps))
           \<and> w1 = snd (ingestLoop e (readFiles e (state w) fps) ([], w))"
proof -
  from assms obtain fps where fps: "scanDirectory e dir = Inr fps"
    by (cases "scanDirectory e dir") (auto simp: ingestFiles_def)
  from assms fps have ne: "fps \<noteq> []" "readFiles e (state w) fps \<noteq> []"
    by (auto simp: ingestFiles_def Let_def split: if_splits)
  with assms fps have "ingestLoop e (readFiles e (state w) fps) ([], w) = (chunks, w1)"
    by (auto simp: ingestFiles_def Let_def split: prod.splits)
  with fps ingestLoop_chunks [of e "readFiles e (state w) fps" "([], w)"] show ?thesis
    by (intro exI [of _ fps]) auto
qed


subsection \<open>What a run logs after the hand-off\<close>

lemma quietExt_refl: "quietExt w w"
  by (simp add: quietExt_def)

lemma quietExt_trans: "quietExt w w' \<Longrightarrow> quietExt w' w'' \<Longrightarrow> quietExt w w''"
  by (auto simp: quietExt_def)

lemma quietExt_log: "\<not> isWatermark ev \<Longrightarrow> quietExt w (logEvent ev w)"
  by (simp add: quietExt_def logEvent_def)

lemma quietExt_saveState: "quietExt w (snd (saveState e w))"
  by (simp add: quietExt_def saveState_def Let_def isWatermark_def)

lemma quietExt_updateLastRun: "quietExt w (snd (updateLastRun e w))"
proof -
  have "quietExt (w\<lparr>state := (state w)\<lparr>lastRun := Some (nowISO e)\<rparr>\<rparr>) (snd (updateLastRun e w))"
    unfolding updateLastRun_def by (rule quietExt_saveState)
  then show ?thesis by (simp add: quietExt_def)
qed

lemma cleanup_events:
  "events (snd (cleanup e n w)) = events w
   \<or> (\<exists>t. events (snd (cleanup e n w)) = events w @ [LedgerWritten t])"
  by (simp add: cleanup_def saveState_def Let_def)

lemma quietExt_cleanup: "quietExt w (snd (cleanup e n w))"
  using cleanup_events [of e n w] by (auto simp: quietExt_def isWatermark_def)

lemma quietExt_mark: "quietExt w (markTaskProcessed h w)"
  by (simp add: quietExt_def markTaskProcessed_def isWatermark_def)

lemma quietExt_markLoop: "quietExt (fst acc) (snd (markLoop ts rs i acc))"
proof (induction rs arbitrary: i acc)
  case Nil
  then show ?case by (simp add: quietExt_refl)
next
  case (Cons r rs)
  show ?case
  proof (cases "success r \<and> i < length ts")
    case True
    have "quietExt (fst acc) (markTaskProcessed (hash (ts ! i)) (fst acc))"
      by (rule quietExt_mark)
    moreover have "quietExt (markTaskProcessed (hash (ts ! i)) (fst acc))
        (snd (markLoop ts rs (i + 1) (markTaskProcessed (hash (ts ! i)) (fst acc), snd acc + 1)))"
      using Cons.IH [where i = "i + 1" and acc = "(markTaskProcessed (hash (ts ! i)) (fst acc), snd acc + 1)"] by simp
    ultimately show ?thesis using True by (auto intro: quietExt_trans)
  next
    case False
    then show ?thesis using Cons.IH [where i = "i + 1" and acc = acc] by (auto simp: quietExt_refl)
  qed
qed

text \<open>The rest of \<^verbatim>\<open>Command\<close> after the extraction call returned.\<close>

lemma quietExt_sync:
  "quietExt w3
     (case syncTasks run 3 allTasks of
        None \<Rightarrow> w3
      | Some syncResults \<Rightarrow>
          (case markLoop allTasks syncResults 0 (w3, 0) of
             (Inl err, w4) \<Rightarrow> w4
           | (Inr successCount, w4) \<Rightarrow>
               (case cleanup e defaultMaxEntries w4 of
                  (Inl err, w5) \<Rightarrow> w5
                | (Inr u, w5) \<Rightarrow> snd (updateLastRun e w5))))"
proof (cases "syncTasks run 3 allTasks")
  case None
  then show ?thesis by (simp add: quietExt_refl)
next
  case (Some syncResults)
  obtain r4 w4 where m: "markLoop allTasks syncResults 0 (w3, 0) = (r4, w4)"
    by (cases "markLoop allTasks syncResults 0 (w3, 0)") auto
  have q4: "quietExt w3 w4"
    using quietExt_markLoop [of "(w3, 0)" allTasks syncResults 0] m by simp
  show ?thesis
  proof (cases r4)
    case (Inl err)
    with Some m q4 show ?thesis by simp
  next
    case (Inr successCount)
    obtain r5 w5 where c: "cleanup e defaultMaxEntries w4 = (r5, w5)"
      by (cases "cleanup e defaultMaxEntries w4") auto
    have q5: "quietExt w4 w5"
      using quietExt_cleanup [of w4 e defaultMaxEntries] c by simp
    show ?thesis
    proof (cases r5)
      case (Inl err)
      with Some m Inr c q4 q5 show ?thesis by (auto intro: quietExt_trans)
    next
      case r: (Inr u)
      have "quietExt w5 (snd (updateLastRun e w5))" by (rule quietExt_updateLastRun)
      with Some m Inr c r q4 q5 show ?thesis by (auto intro: quietExt_trans)
    qed
  qed
qed

lemma Command_after_handoff:
  assumes "enableScheduled preferences" and "allHealthy sv"
    and "ingestFiles e (inboxDir preferences) w = (Inr chunks, w1)" and "chunks \<noteq> []"
  shows "quietExt (logEvent (ExtractionCalled chunks) w1) (Command e preferences sv w)"
proof (cases "extractTasksFromChunks sv chunks")
  case (Inl err)
  with assms show ?thesis by (simp add: Command_def quietExt_refl)
next
  case (Inr extractionResults)
  let ?w2 = "logEvent (ExtractionCalled chunks) w1"
  let ?all = "collectTasks e (state ?w2) extractionResults"
  show ?thesis
  proof (cases "?all = []")
    case True
    with assms Inr show ?thesis by (simp add: Command_def quietExt_updateLastRun)
  next
    case False
    have "quietExt ?w2 (logEvent (SyncCalled ?all) ?w2)"
      by (rule quietExt_log) (simp add: isWatermark_def)
    moreover note quietExt_sync [where ?w3.0 = "logEvent (SyncCalled ?all) ?w2"
        and run = "createTaskResult sv" and allTasks = ?all and e = e]
    ultimately have "quietExt ?w2
     (case syncTasks (createTaskResult sv) 3 ?all of
        None \<Rightarrow> logEvent (SyncCalled ?all) ?w2
      | Some syncResults \<Rightarrow>
          (case markLoop ?all syncResults 0 (logEvent (SyncCalled ?all) ?w2, 0) of
             (Inl err, w4) \<Rightarrow> w4
           | (Inr successCount, w4) \<Rightarrow>
               (case cleanup e defaultMaxEntries w4 of
                  (Inl err, w5) \<Rightarrow> w5
                | (Inr u, w5) \<Rightarrow> snd (updateLastRun e w5))))"
      by (rule quietExt_trans)
    with assms Inr False show ?thesis by (simp add: Command_def Let_def)
  qed
qed


text \<open>
  Claim C1, as the code has it. In a run that hands chunks to the extractor: ingestion has
  already advanced the in-memory watermark of every chunk's file to the file's modification
  time; every watermark advance of the run comes before the hand-off and none after it;
  nothing else, in particular no write of the state file, comes before the hand-off. So
  the state file at the hand-off is the one from the start of the run, and a manager
  started from it after a crash finds every one of these files modified again.
\<close>

theorem watermark_before_handoff:
  assumes "enableScheduled preferences" and "allHealthy sv"
    and "ingestFiles e (inboxDir preferences) w = (Inr chunks, w1)" and "chunks \<noteq> []"
  shows "(\<exists>wm rest. events w1 = events w @ wm
             \<and> events (Command e preferences sv w) = events w @ wm @ ExtractionCalled chunks # rest
             \<and> (\<forall>ev \<in> set wm. isWatermark ev) \<and> (\<forall>ev \<in> set rest. \<not> isWatermark ev))
       \<and> ledger w1 = ledger w
       \<and> (\<forall>c \<in> set chunks. \<exists>d m. fsStat e (chunk_filePath c) = Some (d, m)
              \<and> map_of (lastModifiedTimes (state w1)) (chunk_filePath c) = Some m
              \<and> WatermarkAdvanced (chunk_filePath c) m \<in> set (events w1))
       \<and> (\<forall>c \<in> set chunks. isFileModified e (state w) (chunk_filePath c))
       \<and> (state w = loadState (JSON_parse e) (ledger w) \<longrightarrow>
            (\<forall>c \<in> set chunks.
               isFileModified e (state (newStateManager (JSON_parse e) (ledger w1)))
                 (chunk_filePath c)))"
proof -
  from ingestFiles_result [OF assms(3,4)] obtain fps where
    chunks: "chunks = concat (map chunkContent (readFiles e (state w) fps))"
    and w1: "w1 = snd (ingestLoop e (readFiles e (state w) fps) ([], w))"
    by blast
  let ?fcs = "readFiles e (state w) fps"
  have ev1: "events w1 = events w @ watermarkEvents e ?fcs"
    by (simp add: w1 ingestLoop_events)
  from Command_after_handoff [OF assms] obtain rest where
    rest: "events (Command e preferences sv w) = events w1 @ ExtractionCalled chunks # rest"
    and quiet: "\<forall>ev \<in> set rest. \<not> isWatermark ev"
    by (auto simp: quietExt_def logEvent_def)
  have first: "\<exists>wm rest. events w1 = events w @ wm
             \<and> events (Command e preferences sv w) = events w @ wm @ ExtractionCalled chunks # rest
             \<and> (\<forall>ev \<in> set wm. isWatermark ev) \<and> (\<forall>ev \<in> set rest. \<not> isWatermark ev)"
    using ev1 rest quiet watermarkEvents_all [of e ?fcs]
    by (intro exI [of _ "watermarkEvents e ?fcs"] exI [of _ rest]) simp
  have led: "ledger w1 = ledger w"
    by (simp add: w1 ingestLoop_ledger)
  have each: "\<exists>d m. fsStat e (chunk_filePath c) = Some (d, m)
              \<and> map_of (lastModifiedTimes (state w1)) (chunk_filePath c) = Some m
              \<and> WatermarkAdvanced (chunk_filePath c) m \<in> set (events w1)
              \<and> isFileModified e (state w) (chunk_filePath c)"
    if c: "c \<in> set chunks" for c
  proof -
    from c chunks obtain fc where fc: "fc \<in> set ?fcs" "c \<in> set (chunkContent fc)" by auto
    then have p: "chunk_filePath c = filePath fc"
      by (simp add: chunkContent_def chunkContent_path)
    from readFiles_member [OF fc(1)] obtain d m where
      st: "fsStat e (filePath fc) = Some (d, m)" and md: "isFileModified e (state w) (filePath fc)"
      by blast
    have "map_of (lastModifiedTimes (state w1)) (filePath fc) = Some m"
      using fc(1) st by (simp add: w1 ingestLoop_times)
    moreover have "WatermarkAdvanced (filePath fc) m \<in> set (events w1)"
      using watermarkEvents_member [OF fc(1) st] by (simp add: ev1)
    ultimately show ?thesis using st md p by auto
  qed
  have reload: "state w = loadState (JSON_parse e) (ledger w) \<longrightarrow>
            (\<forall>c \<in> set chunks.
               isFileModified e (state (newStateManager (JSON_parse e) (ledger w1)))
                 (chunk_filePath c))"
  proof (intro impI ballI)
    fix c
    assume fresh: "state w = loadState (JSON_parse e) (ledger w)" and c: "c \<in> set chunks"
    from each [OF c] have "isFileModified e (state w) (chunk_filePath c)" by blast
    with fresh led show "isFileModified e (state (newStateManager (JSON_parse e) (ledger w1)))
                 (chunk_filePath c)"
      by (simp add: newStateManager_def)
  qed
  from first led each reload show ?thesis by blast
qed

lemma sample_ingest:
  "ingestFiles sampleEnv ''/inbox'' emptyWorld
   = (Inr [sampleChunk],
      \<lparr>state = \<lparr>lastRun = None, processedTasks = [],
                lastModifiedTimes = [(''/inbox/a.md'', 5)]\<rparr>,
       ledger = Missing, events = [WatermarkAdvanced ''/inbox/a.md'' 5]\<rparr>)"
  by code_simp

lemma sample_run:
  "take 2 (events (Command sampleEnv samplePreferences sampleServices emptyWorld))
   = [WatermarkAdvanced ''/inbox/a.md'' 5, ExtractionCalled [sampleChunk]]"
  by code_simp

theorem watermark_before_handoff_witness:
  "enableScheduled samplePreferences \<and> allHealthy sampleServices
   \<and> fst (ingestFiles sampleEnv (inboxDir samplePreferences) emptyWorld) = Inr [sampleChunk]
   \<and> ledger (snd (ingestFiles sampleEnv (inboxDir samplePreferences) emptyWorld)) = ledger emptyWorld
   \<and> map_of (lastModifiedTimes (state (snd (ingestFiles sampleEnv (inboxDir samplePreferences) emptyWorld))))
        (chunk_filePath sampleChunk) = Some 5
   \<and> isFileModified sampleEnv (state (newStateManager (JSON_parse sampleEnv) (ledger emptyWorld)))
        (chunk_filePath sampleChunk)"
proof -
  have a: "enableScheduled samplePreferences" "allHealthy sampleServices"
    by (simp_all add: samplePreferences_def sampleServices_def)
  have i: "ingestFiles sampleEnv (inboxDir samplePreferences) emptyWorld
   = (Inr [sampleChunk],
      \<lparr>state = \<lparr>lastRun = None, processedTasks = [],
                lastModifiedTimes = [(''/inbox/a.md'', 5)]\<rparr>,
       ledger = Missing, events = [WatermarkAdvanced ''/inbox/a.md'' 5]\<rparr>)"
    using sample_ingest by (simp add: samplePreferences_def)
  have fresh: "state emptyWorld = loadState (JSON_parse sampleEnv) (ledger emptyWorld)"
    by (simp add: emptyWorld_def loadState_def)
  from watermark_before_handoff [OF a i] fresh i a show ?thesis
    by (simp add: emptyWorld_def sampleChunk_def)
qed

text \<open>
  Claim C1 as stated fails: in the sample run the watermark of the file is advanced by
  ingestion, and the advance is the event before the hand-off to extraction.
\<close>

theorem watermark_before_handoff_counterexample:
  "map_of (lastModifiedTimes (state emptyWorld)) ''/inbox/a.md'' = None
   \<and> map_of (lastModifiedTimes (state (snd (ingestFiles sampleEnv ''/inbox'' emptyWorld))))
        ''/inbox/a.md'' = Some 5
   \<and> take 2 (events (Command sampleEnv samplePreferences sampleServices emptyWorld))
     = [WatermarkAdvanced ''/inbox/a.md'' 5, ExtractionCalled [sampleChunk]]"
  using sample_ingest sample_run by (simp add: emptyWorld_def defaultState_def)

end
